theory Spec2Isabelle
  imports
    Main
    "HOL-Library.Sublist"
    "HOL-Library.Multiset"
    "HOL-Library.Char_ord"
    "HOL-Library.List_Lexorder"
    "HOL-Library.Product_Lexorder"
    "HOL-Library.Code_Target_Nat"
begin

section \<open>The draw-list updater \<^verbatim>\<open>data/update.py\<close>\<close>

text \<open>
  The script keeps three JSON documents (\<^verbatim>\<open>state.json\<close>, \<^verbatim>\<open>latest.json\<close>,
  \<^verbatim>\<open>history.json\<close>). One execution of \<^verbatim>\<open>main\<close> looks, for every series whose
  weekday it is, whether the PDF numbered one above the stored counter exists, and if so
  advances the counter, overwrites the snapshot of the series, appends a history item
  and saves all three documents.

  The embedding follows the source function by function. What the source takes from
  outside is an explicit argument: the clock (\<^verbatim>\<open>now_utc\<close>, \<^verbatim>\<open>now_local\<close>), the
  transport behind \<^verbatim>\<open>urllib.request.urlopen\<close> and the three files. A raised exception is
  a value \<open>Inl err\<close>.

  Not modelled: a file that exists but does not hold JSON of the shape described below,
  floating-point numbers, a failure to read or to write a file, and exceptions that
  \<^verbatim>\<open>except Exception\<close> does not catch. Integers have no bound, as in Python; the limit
  that recent interpreters put on the digits of a conversion between \<^verbatim>\<open>int\<close> and
  \<^verbatim>\<open>str\<close> is not modelled.
\<close>

subsection \<open>Python values and built-ins used by the script\<close>

text \<open>
  A Python \<^verbatim>\<open>str\<close> is a \<open>string\<close>; a \<open>char\<close> stands for a code point below 256.
  The scalar values that \<^verbatim>\<open>json.load\<close> produces are \<^verbatim>\<open>None\<close>, \<^verbatim>\<open>bool\<close>,
  \<^verbatim>\<open>int\<close> and \<^verbatim>\<open>str\<close>; floating-point numbers are left out of the model.
\<close>

datatype scalar = JNull | JBool bool | JInt int | JStr string

datatype error = TypeError | ValueError | KeyError

text \<open>\<^verbatim>\<open>str(n)\<close> for a Python integer: decimal digits, a minus sign in front of a negative one.\<close>

definition digit_char :: "nat \<Rightarrow> char" where
  "digit_char d = char_of (of_char CHR ''0'' + d)"

function str_nat :: "nat \<Rightarrow> string" where
  "str_nat n = (if n < 10 then [digit_char n] else str_nat (n div 10) @ [digit_char (n mod 10)])"
  by pat_completeness auto
termination
  by (relation "measure id") auto

declare str_nat.simps [simp del]

definition str_int :: "int \<Rightarrow> string" where
  "str_int i = (if i < 0 then CHR ''-'' # str_nat (nat (- i)) else str_nat (nat i))"

text \<open>
  \<^verbatim>\<open>int(s)\<close> for a string, base 10: white space is stripped on both sides, then an optional
  sign, then decimal digits, where a single underscore may stand between two digits. Anything
  else raises \<^verbatim>\<open>ValueError\<close>, here \<open>None\<close>.
\<close>

definition is_space :: "char \<Rightarrow> bool" where
  "is_space c = ((of_char c :: nat) \<in> {9, 10, 11, 12, 13, 32, 133, 160})"

definition is_digit :: "char \<Rightarrow> bool" where
  "is_digit c = (CHR ''0'' \<le> c \<and> c \<le> CHR ''9'')"

definition digit_val :: "char \<Rightarrow> int" where
  "digit_val c = int (of_char c) - int (of_char CHR ''0'')"

definition strip :: "string \<Rightarrow> string" where
  "strip s = rev (dropWhile is_space (rev (dropWhile is_space s)))"

text \<open>\<open>digits acc s\<close> reads \<open>s\<close> after a digit has been read; \<open>acc\<close> is the value so far.\<close>

fun digits :: "int \<Rightarrow> string \<Rightarrow> int option" where
  "digits acc [] = Some acc"
| "digits acc [c] = (if is_digit c then Some (10 * acc + digit_val c) else None)"
| "digits acc (c # d # cs) =
     (if is_digit c then digits (10 * acc + digit_val c) (d # cs)
      else if c = CHR ''_'' \<and> is_digit d then digits (10 * acc + digit_val d) cs
      else None)"

definition unsigned :: "string \<Rightarrow> int option" where
  "unsigned s = (case s of [] \<Rightarrow> None
     | c # cs \<Rightarrow> if is_digit c then digits (digit_val c) cs else None)"

definition int_of_str :: "string \<Rightarrow> int option" where
  "int_of_str s = (case strip s of
       [] \<Rightarrow> None
     | c # cs \<Rightarrow>
         if c = CHR ''-'' then map_option uminus (unsigned cs)
         else if c = CHR ''+'' then unsigned cs
         else unsigned (c # cs))"

text \<open>\<^verbatim>\<open>int(x)\<close> on a scalar.\<close>

fun py_int :: "scalar \<Rightarrow> error + int" where
  "py_int JNull = Inl TypeError"
| "py_int (JBool b) = Inr (if b then 1 else 0)"
| "py_int (JInt n) = Inr n"
| "py_int (JStr s) = (case int_of_str s of None \<Rightarrow> Inl ValueError | Some n \<Rightarrow> Inr n)"

text \<open>
  \<^verbatim>\<open>s.lower()\<close>: the capital letters below code point 256 are \<^verbatim>\<open>A\<close> to \<^verbatim>\<open>Z\<close> and
  192 to 222 without 215; each goes to the letter 32 places further on.
\<close>

definition lower_char :: "char \<Rightarrow> char" where
  "lower_char c = (let n = (of_char c :: nat) in
     if (65 \<le> n \<and> n \<le> 90) \<or> (192 \<le> n \<and> n \<le> 222 \<and> n \<noteq> 215) then char_of (n + 32) else c)"

definition lower :: "string \<Rightarrow> string" where
  "lower s = map lower_char s"

text \<open>\<^verbatim>\<open>sub in s\<close> for strings: \<open>sub\<close> occurs in \<open>s\<close> as a contiguous piece.\<close>

fun contains :: "string \<Rightarrow> string \<Rightarrow> bool" where
  "contains sub [] = (sub = [])"
| "contains sub (c # cs) = (prefix sub (c # cs) \<or> contains sub cs)"

text \<open>
  \<^verbatim>\<open>s.replace(old, new)\<close>: the occurrences of \<open>old\<close> are replaced from left to right
  without overlap; an empty \<open>old\<close> matches before every character and at the end.
\<close>

fun replace :: "string \<Rightarrow> string \<Rightarrow> string \<Rightarrow> string" where
  "replace [] new s = new @ concat (map (\<lambda>c. c # new) s)"
| "replace (x # xs) new [] = []"
| "replace (x # xs) new (c # cs) =
     (if prefix (x # xs) (c # cs) then new @ replace (x # xs) new (drop (length xs) cs)
      else c # replace (x # xs) new cs)"

subsection \<open>Clock values\<close>

text \<open>
  The script reads the clock once. Of \<^verbatim>\<open>now_utc\<close> it uses \<^verbatim>\<open>isoformat()\<close>; of
  \<^verbatim>\<open>now_local\<close>, the same instant in the zone America/Hermosillo, it uses
  \<^verbatim>\<open>weekday()\<close> (Monday is 0) and \<^verbatim>\<open>date().isoformat()\<close>. The clock and the
  change of zone are not part of the script, so both moments are inputs.
\<close>

record date =
  year :: nat
  month :: nat
  day :: nat

record datetime = date +
  hour :: nat
  minute :: nat
  second :: nat
  microsecond :: nat

record local_datetime =
  weekday :: nat
  date_of :: date

text \<open>\<^verbatim>\<open>"%0wd" % n\<close>: the decimal digits of \<open>n\<close>, filled with zeros on the left up to width \<open>w\<close>.\<close>

definition zfill :: "nat \<Rightarrow> nat \<Rightarrow> string" where
  "zfill w n = replicate (w - length (str_nat n)) CHR ''0'' @ str_nat n"

definition date_isoformat :: "'a date_scheme \<Rightarrow> string" where
  "date_isoformat d = zfill 4 (year d) @ ''-'' @ zfill 2 (month d) @ ''-'' @ zfill 2 (day d)"

text \<open>\<^verbatim>\<open>isoformat()\<close> of a datetime whose zone is \<^verbatim>\<open>timezone.utc\<close>.\<close>

definition time_isoformat :: "datetime \<Rightarrow> string" where
  "time_isoformat t = zfill 2 (hour t) @ '':'' @ zfill 2 (minute t) @ '':'' @ zfill 2 (second t)
     @ (if microsecond t = 0 then [] else ''.'' @ zfill 6 (microsecond t))"

definition isoformat :: "datetime \<Rightarrow> string" where
  "isoformat t = date_isoformat t @ ''T'' @ time_isoformat t @ ''+00:00''"

subsection \<open>Configuration tables\<close>

definition series :: "string list" where
  "series = [''mayor'', ''superior'', ''zodiaco'']"

text \<open>
  A URL pattern is kept as the text before and the text after its only field \<^verbatim>\<open>{n}\<close>;
  \<^verbatim>\<open>pattern.format(n=k)\<close> puts \<^verbatim>\<open>str(k)\<close> between them.
\<close>

definition BASE_URLS :: "string \<rightharpoonup> string \<times> string" where
  "BASE_URLS = [
     ''mayor'' \<mapsto> (''https://lotenal.gob.mx/documentos/listapremios/mayor/mayor'', ''.pdf''),
     ''superior'' \<mapsto> (''https://lotenal.gob.mx/documentos/listapremios/superior/superior'', ''.pdf''),
     ''zodiaco'' \<mapsto> (''https://lotenal.gob.mx/documentos/listapremios/zodiaco/zodiaco'', ''.pdf'')]"

definition format_n :: "string \<times> string \<Rightarrow> int \<Rightarrow> string" where
  "format_n pattern n = fst pattern @ str_int n @ snd pattern"

definition LABELS :: "string \<rightharpoonup> string" where
  "LABELS = [''mayor'' \<mapsto> ''Sorteo Mayor'', ''superior'' \<mapsto> ''Sorteo Superior'',
     ''zodiaco'' \<mapsto> ''Sorteo Zodiaco'']"

definition SCHEDULE_WEEKDAYS :: "string \<rightharpoonup> nat list" where
  "SCHEDULE_WEEKDAYS = [''zodiaco'' \<mapsto> [6], ''mayor'' \<mapsto> [1], ''superior'' \<mapsto> [4]]"

text \<open>\<^verbatim>\<open>d.get(k, default)\<close>\<close>

definition dict_get :: "('k \<rightharpoonup> 'v) \<Rightarrow> 'k \<Rightarrow> 'v \<Rightarrow> 'v" where
  "dict_get d k dflt = (case d k of None \<Rightarrow> dflt | Some v \<Rightarrow> v)"

subsection \<open>\<^verbatim>\<open>should_attempt_today\<close>\<close>

definition should_attempt_today :: "string \<Rightarrow> local_datetime \<Rightarrow> bool" where
  "should_attempt_today draw_key now_local =
     (let w = weekday now_local in w \<in> set (dict_get SCHEDULE_WEEKDAYS draw_key []))"

subsection \<open>\<^verbatim>\<open>pdf_exists\<close>\<close>

text \<open>
  \<^verbatim>\<open>urlopen\<close> either returns a response, of which the script reads the status and the
  \<^verbatim>\<open>Content-Type\<close> header (\<open>None\<close> when the server sent none), or raises. Every
  exception it can raise is caught by \<^verbatim>\<open>except Exception\<close>, so one constructor stands for
  all of them. The transport is a function from the request to what happens; \<open>pdf_exists\<close>
  returns its verdict together with the requests it made, in order.
\<close>

datatype outcome = Response nat "string option" | Raises

record request =
  rq_method :: string
  rq_url :: string
  rq_headers :: "(string \<times> string) list"
  rq_timeout :: nat

type_synonym transport = "request \<Rightarrow> outcome"

definition or_empty :: "string option \<Rightarrow> string" where
  "or_empty h = (case h of None \<Rightarrow> [] | Some v \<Rightarrow> v)"

definition pdf_exists :: "transport \<Rightarrow> string \<Rightarrow> nat \<Rightarrow> bool \<times> request list" where
  "pdf_exists urlopen u timeout_sec =
     (let req = \<lparr>rq_method = ''HEAD'', rq_url = u, rq_headers = [], rq_timeout = timeout_sec\<rparr> in
      case urlopen req of
        Response status h \<Rightarrow>
          if status \<noteq> 200 then (False, [req])
          else let ct = lower (or_empty h) in (contains ''pdf'' ct \<or> ct = [], [req])
      | Raises \<Rightarrow>
          let req2 = \<lparr>rq_method = ''GET'', rq_url = u, rq_headers = [(''Range'', ''bytes=0-80'')],
                       rq_timeout = timeout_sec\<rparr> in
          case urlopen req2 of
            Response status h \<Rightarrow>
              if status \<notin> {200, 206} then (False, [req, req2])
              else let ct = lower (or_empty h) in (contains ''pdf'' ct \<or> ct = [], [req, req2])
          | Raises \<Rightarrow> (False, [req, req2]))"

subsection \<open>The three documents\<close>

text \<open>
  \<^verbatim>\<open>state.json\<close> is an object from series to counter. The script passes each counter
  through \<^verbatim>\<open>int\<close>, so a counter is any scalar.

  \<^verbatim>\<open>latest.json\<close> is an object with the keys \<^verbatim>\<open>updated_at\<close> and \<^verbatim>\<open>results\<close>,
  each of which may be missing; \<^verbatim>\<open>results\<close> is an object from series to snapshot. The
  script never reads a snapshot, it only stores new ones made of four strings.

  \<^verbatim>\<open>history.json\<close> is an object with the keys \<^verbatim>\<open>updated_at\<close> and \<^verbatim>\<open>items\<close>, each
  of which may be missing; \<^verbatim>\<open>items\<close> is a list of objects. Of an item the script reads
  \<^verbatim>\<open>type\<close>, \<^verbatim>\<open>draw\<close> and \<^verbatim>\<open>published_date\<close>. A field is \<open>None\<close> when the item
  has no such key. \<^verbatim>\<open>type\<close> and \<^verbatim>\<open>draw\<close> may hold any scalar;
  \<^verbatim>\<open>published_date\<close>, where present, is a string, as in every item the script writes.

  A file that does not exist is \<open>None\<close>.
\<close>

type_synonym counters = "string \<rightharpoonup> scalar"

record snapshot =
  sn_label :: string
  sn_draw :: string
  sn_published_date :: string
  sn_pdf_url :: string

record latest_doc =
  la_updated_at :: "scalar option"
  la_results :: "(string \<rightharpoonup> snapshot) option"

record item =
  it_type :: "scalar option"
  it_label :: "scalar option"
  it_draw :: "scalar option"
  it_published_date :: "string option"
  it_pdf_url :: "scalar option"

record history_doc =
  hi_updated_at :: "scalar option"
  hi_items :: "item list option"

record files =
  STATE_FILE :: "counters option"
  LATEST_FILE :: "latest_doc option"
  HISTORY_FILE :: "history_doc option"

definition load_json :: "'a option \<Rightarrow> 'a \<Rightarrow> 'a" where
  "load_json path dflt = (case path of None \<Rightarrow> dflt | Some d \<Rightarrow> d)"

text \<open>\<^verbatim>\<open>it.get(k)\<close> for a scalar field: \<^verbatim>\<open>None\<close> when the key is missing.\<close>

definition get_none :: "scalar option \<Rightarrow> scalar" where
  "get_none f = (case f of None \<Rightarrow> JNull | Some v \<Rightarrow> v)"

subsection \<open>\<^verbatim>\<open>main\<close>\<close>

text \<open>The variables of \<^verbatim>\<open>main\<close> that change, and the calls of \<open>pdf_exists\<close> made so far.\<close>

record probe =
  pr_url :: string
  pr_requests :: "request list"
  pr_exists :: bool

record vars =
  state :: counters
  latest :: latest_doc
  history :: history_doc
  existing :: "(scalar \<times> int) set"
  updated_any :: bool
  probes :: "probe list"

record env =
  now_utc :: datetime
  now_local :: local_datetime
  urlopen :: transport

definition default_state :: counters where
  "default_state = [''mayor'' \<mapsto> JInt 0, ''superior'' \<mapsto> JInt 0, ''zodiaco'' \<mapsto> JInt 0]"

definition default_latest :: latest_doc where
  "default_latest = \<lparr>la_updated_at = Some (JStr []), la_results = Some Map.empty\<rparr>"

definition default_history :: history_doc where
  "default_history = \<lparr>hi_updated_at = Some (JStr []), hi_items = Some []\<rparr>"

text \<open>Lines 94 to 101: \<^verbatim>\<open>setdefault\<close> keeps what is there and fills in what is missing.\<close>

definition placeholder :: "string \<Rightarrow> error + snapshot" where
  "placeholder k = (case LABELS k of None \<Rightarrow> Inl KeyError
     | Some l \<Rightarrow> Inr \<lparr>sn_label = l, sn_draw = [], sn_published_date = [], sn_pdf_url = []\<rparr>)"

fun normalize :: "string list \<Rightarrow> (string \<rightharpoonup> snapshot) \<Rightarrow> error + (string \<rightharpoonup> snapshot)" where
  "normalize [] r = Inr r"
| "normalize (k # ks) r = (case placeholder k of Inl e \<Rightarrow> Inl e
     | Inr p \<Rightarrow> normalize ks (case r k of None \<Rightarrow> r(k \<mapsto> p) | Some _ \<Rightarrow> r))"

text \<open>
  Lines 104 to 109. The set holds pairs of a scalar and an integer; the script only ever
  asks whether a pair of a series name and an integer is in it.
\<close>

fun dedupe_set :: "item list \<Rightarrow> (scalar \<times> int) set \<Rightarrow> (scalar \<times> int) set" where
  "dedupe_set [] ex = ex"
| "dedupe_set (it # its) ex = (case py_int (get_none (it_draw it)) of
       Inl _ \<Rightarrow> dedupe_set its ex
     | Inr n \<Rightarrow> dedupe_set its (insert (get_none (it_type it), n) ex))"

text \<open>Lines 113 to 152: the body of the loop for one \<open>key\<close>.\<close>

definition advance :: "env \<Rightarrow> string \<Rightarrow> vars \<Rightarrow> error + vars" where
  "advance e key v =
    (if \<not> should_attempt_today key (now_local e) then Inr v
     else case py_int (dict_get (state v) key (JInt 0)) of Inl err \<Rightarrow> Inl err
     | Inr current_n \<Rightarrow>
       let next_n = current_n + 1 in
       case BASE_URLS key of None \<Rightarrow> Inl KeyError
       | Some pattern \<Rightarrow>
         let u = format_n pattern next_n;
             (found, reqs) = pdf_exists (urlopen e) u 12;
             v = v\<lparr>probes := probes v @ [\<lparr>pr_url = u, pr_requests = reqs, pr_exists = found\<rparr>]\<rparr>
         in
         if \<not> found then Inr v
         else
           let v = v\<lparr>state := (state v)(key \<mapsto> JInt next_n)\<rparr>;
               published_date = date_isoformat (date_of (now_local e))
           in
           case la_results (latest v) of None \<Rightarrow> Inl KeyError
           | Some results \<Rightarrow>
           case LABELS key of None \<Rightarrow> Inl KeyError
           | Some label \<Rightarrow>
             let v = v\<lparr>latest := (latest v)\<lparr>la_results := Some (results(key \<mapsto>
                        \<lparr>sn_label = label, sn_draw = ''Sorteo '' @ str_int next_n,
                         sn_published_date = published_date, sn_pdf_url = u\<rparr>))\<rparr>\<rparr>;
                 dedupe_key = (JStr key, next_n);
                 v = (if dedupe_key \<notin> existing v then
                        v\<lparr>history := (history v)\<lparr>hi_items := Some (load_json (hi_items (history v)) [] @
                            [\<lparr>it_type = Some (JStr key), it_label = Some (JStr label),
                              it_draw = Some (JInt next_n), it_published_date = Some published_date,
                              it_pdf_url = Some (JStr u)\<rparr>])\<rparr>,
                          existing := insert dedupe_key (existing v)\<rparr>
                      else v)
             in Inr (v\<lparr>updated_any := True\<rparr>))"

fun for_keys :: "env \<Rightarrow> string list \<Rightarrow> vars \<Rightarrow> error + vars" where
  "for_keys e [] v = Inr v"
| "for_keys e (key # keys) v = (case advance e key v of Inl err \<Rightarrow> Inl err
     | Inr v' \<Rightarrow> for_keys e keys v')"

text \<open>
  Lines 160 to 162. \<^verbatim>\<open>list.sort\<close> first computes the key of every item, which raises
  where \<^verbatim>\<open>int\<close> does. With \<^verbatim>\<open>reverse=True\<close> it then reverses the list, sorts it stably
  in ascending order of the keys and reverses it again. Keys are pairs of a string and an
  integer, compared first by the strings (code point by code point, a proper prefix being
  smaller) and then by the integers; that is the order of \<open>string \<times> int\<close> here. A stable
  sort has one possible result, so insertion sort stands for Python's.
\<close>

definition sort_key_of :: "item \<Rightarrow> error + string \<times> int" where
  "sort_key_of x = (case py_int (case it_draw x of None \<Rightarrow> JInt 0 | Some d \<Rightarrow> d) of
       Inl err \<Rightarrow> Inl err
     | Inr n \<Rightarrow> Inr (case it_published_date x of None \<Rightarrow> [] | Some p \<Rightarrow> p, n))"

fun with_keys :: "item list \<Rightarrow> error + ((string \<times> int) \<times> item) list" where
  "with_keys [] = Inr []"
| "with_keys (x # xs) = (case sort_key_of x of Inl err \<Rightarrow> Inl err
     | Inr k \<Rightarrow> (case with_keys xs of Inl err \<Rightarrow> Inl err | Inr kxs \<Rightarrow> Inr ((k, x) # kxs)))"

definition sort_reverse :: "item list \<Rightarrow> error + item list" where
  "sort_reverse xs = (case with_keys xs of Inl err \<Rightarrow> Inl err
     | Inr kxs \<Rightarrow> Inr (map snd (rev (sort_key fst (rev kxs)))))"

text \<open>
  \<open>main\<close> returns what it saved, \<open>None\<close> when it reached the end without calling
  \<^verbatim>\<open>save_json\<close>, and the calls of \<open>pdf_exists\<close> it made. Every exception of the model is
  raised before the first \<^verbatim>\<open>save_json\<close>.
\<close>

record result =
  saved :: "files option"
  probed :: "probe list"

definition stamp_of :: "datetime \<Rightarrow> string" where
  "stamp_of t = replace ''+00:00'' ''Z'' (isoformat t)"

definition main :: "env \<Rightarrow> files \<Rightarrow> error + result" where
  "main e fs =
    (let state0 = load_json (STATE_FILE fs) default_state;
         latest0 = load_json (LATEST_FILE fs) default_latest;
         history0 = load_json (HISTORY_FILE fs) default_history
     in
     case normalize series (load_json (la_results latest0) Map.empty) of Inl err \<Rightarrow> Inl err
     | Inr results \<Rightarrow>
       let latest1 = latest0\<lparr>la_results := Some results\<rparr>;
           existing0 = dedupe_set (load_json (hi_items history0) []) {}
       in
       case for_keys e series \<lparr>state = state0, latest = latest1, history = history0,
              existing = existing0, updated_any = False, probes = []\<rparr> of
         Inl err \<Rightarrow> Inl err
       | Inr v \<Rightarrow>
           if updated_any v then
             let stamp = stamp_of (now_utc e) in
             case hi_items (history v) of None \<Rightarrow> Inl KeyError
             | Some items \<Rightarrow>
               case sort_reverse items of Inl err \<Rightarrow> Inl err
               | Inr sorted_items \<Rightarrow>
                   Inr \<lparr>saved = Some \<lparr>STATE_FILE = Some (state v),
                          LATEST_FILE = Some ((latest v)\<lparr>la_updated_at := Some (JStr stamp)\<rparr>),
                          HISTORY_FILE = Some \<lparr>hi_updated_at = Some (JStr stamp),
                                                hi_items = Some sorted_items\<rparr>\<rparr>,
                        probed = probes v\<rparr>
           else Inr \<lparr>saved = None, probed = probes v\<rparr>)"

text \<open>The files after one execution, and after several with the clock and transport of each.\<close>

definition run :: "env \<Rightarrow> files \<Rightarrow> files" where
  "run e fs = (case main e fs of Inl _ \<Rightarrow> fs
     | Inr r \<Rightarrow> (case saved r of None \<Rightarrow> fs | Some fs' \<Rightarrow> fs'))"

fun runs :: "env list \<Rightarrow> files \<Rightarrow> files" where
  "runs [] fs = fs"
| "runs (e # es) fs = runs es (run e fs)"

section \<open>Notions used in the statements\<close>

subsection \<open>The prober as the specification words it\<close>

text \<open>
  The specification describes the prober as an ordered fallback of two steps, each of which
  accepts or not, with a verdict \<open>Exists\<close> or \<open>NotFound\<close>. The definitions below follow
  its words; a header sent with an empty value declares no type and counts as absent. A
  content type names pdf when the letters \<^verbatim>\<open>pdf\<close> occur in it, in capitals or not.
\<close>

datatype verdict = Exists | NotFound

definition declares_nothing :: "string option \<Rightarrow> bool" where
  "declares_nothing h = (h = None \<or> h = Some [])"

definition names_pdf :: "string option \<Rightarrow> bool" where
  "names_pdf h = (case h of None \<Rightarrow> False | Some v \<Rightarrow> contains ''pdf'' (lower v))"

definition type_accepted :: "string option \<Rightarrow> bool" where
  "type_accepted h = (declares_nothing h \<or> names_pdf h)"

definition step1_accepts :: "outcome \<Rightarrow> bool" where
  "step1_accepts r = (case r of Response status h \<Rightarrow> status = 200 \<and> type_accepted h
     | Raises \<Rightarrow> False)"

definition step2_accepts :: "outcome \<Rightarrow> bool" where
  "step2_accepts r = (case r of Response status h \<Rightarrow> (status = 200 \<or> status = 206) \<and> type_accepted h
     | Raises \<Rightarrow> False)"

text \<open>
  The two requests: one that asks for the headers only, and one that asks for the bytes 0 to
  80 of the document, which are its first 81.
\<close>

definition head_request :: "string \<Rightarrow> nat \<Rightarrow> request" where
  "head_request u t = \<lparr>rq_method = ''HEAD'', rq_url = u, rq_headers = [], rq_timeout = t\<rparr>"

definition range_request :: "string \<Rightarrow> nat \<Rightarrow> request" where
  "range_request u t =
     \<lparr>rq_method = ''GET'', rq_url = u, rq_headers = [(''Range'', ''bytes=0-80'')], rq_timeout = t\<rparr>"

definition probe_spec :: "transport \<Rightarrow> string \<Rightarrow> nat \<Rightarrow> verdict \<times> request list" where
  "probe_spec tr u t =
     (if tr (head_request u t) = Raises
      then (if step2_accepts (tr (range_request u t)) then Exists else NotFound,
            [head_request u t, range_request u t])
      else (if step1_accepts (tr (head_request u t)) then Exists else NotFound,
            [head_request u t]))"

subsection \<open>The files as the script reads them\<close>

text \<open>
  \<open>counter fs s\<close> is what line 117 computes for the series \<open>s\<close> from the files
  \<open>fs\<close>: the stored value, 0 when there is none, passed through \<^verbatim>\<open>int\<close>.
  \<open>results_of\<close> and \<open>items_of\<close> are the snapshots and the history items of the
  files, and \<open>init\<close> is the state of the variables when the loop starts.
\<close>

definition counters_of :: "files \<Rightarrow> counters" where
  "counters_of fs = load_json (STATE_FILE fs) default_state"

definition counter :: "files \<Rightarrow> string \<Rightarrow> error + int" where
  "counter fs s = py_int (dict_get (counters_of fs) s (JInt 0))"

definition results_of :: "files \<Rightarrow> string \<rightharpoonup> snapshot" where
  "results_of fs = load_json (la_results (load_json (LATEST_FILE fs) default_latest)) Map.empty"

definition items_of :: "files \<Rightarrow> item list" where
  "items_of fs = load_json (hi_items (load_json (HISTORY_FILE fs) default_history)) []"

text \<open>
  \<open>snapshot_of fs s\<close> is the snapshot of \<open>s\<close> as the script has it after lines 94 to
  101: what the file holds for \<open>s\<close>, and the empty placeholder for a series of the script
  for which the file holds nothing.
\<close>

definition snapshot_of :: "files \<Rightarrow> string \<Rightarrow> snapshot option" where
  "snapshot_of fs s = (case normalize series (results_of fs) of Inl _ \<Rightarrow> None | Inr r \<Rightarrow> r s)"

definition init :: "files \<Rightarrow> (string \<rightharpoonup> snapshot) \<Rightarrow> vars" where
  "init fs results = \<lparr>state = counters_of fs,
     latest = (load_json (LATEST_FILE fs) default_latest)\<lparr>la_results := Some results\<rparr>,
     history = load_json (HISTORY_FILE fs) default_history,
     existing = dedupe_set (items_of fs) {}, updated_any = False, probes = []\<rparr>"

text \<open>The snapshot and the history item that the loop body builds (lines 131 to 148).\<close>

definition new_snapshot :: "env \<Rightarrow> string \<Rightarrow> string \<Rightarrow> int \<Rightarrow> string \<Rightarrow> snapshot" where
  "new_snapshot e key label n u = \<lparr>sn_label = label, sn_draw = ''Sorteo '' @ str_int n,
     sn_published_date = date_isoformat (date_of (now_local e)), sn_pdf_url = u\<rparr>"

definition new_item :: "env \<Rightarrow> string \<Rightarrow> string \<Rightarrow> int \<Rightarrow> string \<Rightarrow> item" where
  "new_item e key label n u = \<lparr>it_type = Some (JStr key), it_label = Some (JStr label),
     it_draw = Some (JInt n), it_published_date = Some (date_isoformat (date_of (now_local e))),
     it_pdf_url = Some (JStr u)\<rparr>"

text \<open>The prober reported \<open>Exists\<close> for the location \<open>u\<close> among the calls \<open>ps\<close>.\<close>

definition reported_exists :: "probe list \<Rightarrow> string \<Rightarrow> bool" where
  "reported_exists ps u = (\<exists>p \<in> set ps. pr_url p = u \<and> pr_exists p)"

subsection \<open>History items and the set of line 104\<close>

text \<open>
  \<open>dedupe_key_of it\<close> is the pair that line 107 puts into the set for the item \<open>it\<close>,
  \<open>None\<close> when \<^verbatim>\<open>int\<close> raises there. \<open>entries s n its\<close> are the items of \<open>its\<close>
  whose pair is the series \<open>s\<close> with the integer \<open>n\<close>; \<open>of_series s its\<close> are those
  whose type is \<open>s\<close>. \<open>items_in\<close> reads the items out of the variables, and
  \<open>keys_agree\<close> says that the set \<^verbatim>\<open>existing\<close> holds the pairs of the items in the
  variables and no others.
\<close>

definition dedupe_key_of :: "item \<Rightarrow> (scalar \<times> int) option" where
  "dedupe_key_of it = (case py_int (get_none (it_draw it)) of Inl _ \<Rightarrow> None
     | Inr n \<Rightarrow> Some (get_none (it_type it), n))"

definition entries :: "string \<Rightarrow> int \<Rightarrow> item list \<Rightarrow> item list" where
  "entries s n its = filter (\<lambda>it. dedupe_key_of it = Some (JStr s, n)) its"

definition of_series :: "string \<Rightarrow> item list \<Rightarrow> item list" where
  "of_series s its = filter (\<lambda>it. it_type it = Some (JStr s)) its"

definition items_in :: "vars \<Rightarrow> item list" where
  "items_in v = load_json (hi_items (history v)) []"

definition keys_agree :: "vars \<Rightarrow> bool" where
  "keys_agree v = (existing v = set (List.map_filter dedupe_key_of (items_in v)))"

text \<open>The items for which the sort key of line 161 can be computed.\<close>

definition sortable :: "item list \<Rightarrow> bool" where
  "sortable its = (\<forall>it \<in> set its. case sort_key_of it of Inl _ \<Rightarrow> False | Inr _ \<Rightarrow> True)"

subsection \<open>Agreement of snapshot and counter\<close>

text \<open>
  The snapshot of \<open>s\<close> agrees with the counter when the counter, read as line 117 reads it,
  is not positive or the snapshot is there and its \<^verbatim>\<open>draw\<close> is \<^verbatim>\<open>"Sorteo "\<close> followed
  by the counter in decimal, which is how line 133 formats it.
\<close>

definition agrees_at :: "files \<Rightarrow> string \<Rightarrow> bool" where
  "agrees_at fs s = (case counter fs s of Inl _ \<Rightarrow> True
     | Inr n \<Rightarrow> n \<le> 0 \<or> (case results_of fs s of None \<Rightarrow> False
         | Some sn \<Rightarrow> sn_draw sn = ''Sorteo '' @ str_int n))"

definition agrees :: "files \<Rightarrow> bool" where
  "agrees fs = (\<forall>s \<in> set series. agrees_at fs s)"

definition no_files :: files where
  "no_files = \<lparr>STATE_FILE = None, LATEST_FILE = None, HISTORY_FILE = None\<rparr>"

subsection \<open>The time stamp\<close>

text \<open>The instant in ISO 8601 form with the suffix \<^verbatim>\<open>Z\<close> for UTC.\<close>

definition utc_z :: "datetime \<Rightarrow> string" where
  "utc_z t = date_isoformat t @ ''T'' @ time_isoformat t @ ''Z''"

subsection \<open>Scenarios\<close>

text \<open>
  Inputs in the manner of the scenarios of the specification: a Tuesday, on which only
  \<^verbatim>\<open>mayor\<close> is attempted, with a server that has every document or none.
\<close>

definition an_instant :: datetime where
  "an_instant = \<lparr>year = 2024, month = 11, day = 12, hour = 20, minute = 14, second = 15,
     microsecond = 123\<rparr>"

definition a_tuesday :: local_datetime where
  "a_tuesday = \<lparr>weekday = 1, date_of = \<lparr>year = 2024, month = 11, day = 12\<rparr>\<rparr>"

definition serves_pdf :: transport where
  "serves_pdf q = Response 200 (Some ''application/pdf'')"

definition serves_nothing :: transport where
  "serves_nothing q = Raises"

definition scenario_A_env :: env where
  "scenario_A_env = \<lparr>now_utc = an_instant, now_local = a_tuesday, urlopen = serves_pdf\<rparr>"

definition scenario_B_env :: env where
  "scenario_B_env = \<lparr>now_utc = an_instant, now_local = a_tuesday, urlopen = serves_nothing\<rparr>"

definition scenario_A_files :: files where
  "scenario_A_files =
     \<lparr>STATE_FILE = Some [''mayor'' \<mapsto> JInt 5], LATEST_FILE = None, HISTORY_FILE = None\<rparr>"

text \<open>
  A Sunday, on which only \<^verbatim>\<open>zodiaco\<close> is attempted, with a history that already has
  the entry the loop finds again after the counter was set back; a history whose items are
  not in order; and two items that are not well formed.
\<close>

definition a_sunday :: local_datetime where
  "a_sunday = \<lparr>weekday = 6, date_of = \<lparr>year = 2024, month = 11, day = 17\<rparr>\<rparr>"

definition scenario_D_env :: env where
  "scenario_D_env = \<lparr>now_utc = an_instant, now_local = a_sunday, urlopen = serves_pdf\<rparr>"

definition entry :: "string \<Rightarrow> int \<Rightarrow> string \<Rightarrow> item" where
  "entry s n d = \<lparr>it_type = Some (JStr s), it_label = None, it_draw = Some (JInt n),
     it_published_date = Some d, it_pdf_url = None\<rparr>"

definition scenario_D_files :: files where
  "scenario_D_files = \<lparr>STATE_FILE = Some [''zodiaco'' \<mapsto> JInt 9], LATEST_FILE = None,
     HISTORY_FILE = Some \<lparr>hi_updated_at = None,
       hi_items = Some [entry ''zodiaco'' 10 ''2024-11-10'']\<rparr>\<rparr>"

definition scenario_E_files :: files where
  "scenario_E_files = \<lparr>STATE_FILE = Some [''mayor'' \<mapsto> JInt 5], LATEST_FILE = None,
     HISTORY_FILE = Some \<lparr>hi_updated_at = None,
       hi_items = Some [entry ''mayor'' 4 ''2024-11-05'', entry ''mayor'' 5 ''2024-11-12'']\<rparr>\<rparr>"

definition untyped_item :: item where
  "untyped_item = \<lparr>it_type = None, it_label = None, it_draw = Some (JInt 6),
     it_published_date = None, it_pdf_url = None\<rparr>"

definition undrawn_item :: item where
  "undrawn_item = \<lparr>it_type = Some (JStr ''mayor''), it_label = None, it_draw = Some (JStr ''abc''),
     it_published_date = None, it_pdf_url = None\<rparr>"

definition scenario_F_files :: files where
  "scenario_F_files = \<lparr>STATE_FILE = Some [''mayor'' \<mapsto> JInt 5], LATEST_FILE = None,
     HISTORY_FILE = Some \<lparr>hi_updated_at = None, hi_items = Some [untyped_item]\<rparr>\<rparr>"

section \<open>Properties\<close>

subsection \<open>The prober\<close>

lemma contains_iff_sublist: "contains sub s \<longleftrightarrow> sublist sub s"
  by (induction s) (auto simp: sublist_Cons_right)

text \<open>
  Claim C7. \<open>pdf_exists\<close> is the two-step fallback of the specification, in its verdict
  and in the requests it makes. It first asks for the headers. If that returns a response,
  the verdict is \<open>Exists\<close> exactly when the status is 200 and the content type is absent
  or names pdf, and no second request is made, whatever the status and the type were. If it
  raises, the probe does not fail: it asks for the first 81 bytes, and the verdict is
  \<open>Exists\<close> exactly when that returns a response with status 200 or 206 and a content
  type that is absent or names pdf; when the second request raises, the verdict is
  \<open>NotFound\<close>.
\<close>

theorem pdf_exists_follows_fallback:
  "pdf_exists tr u t = (fst (probe_spec tr u t) = Exists, snd (probe_spec tr u t))"
  by (cases "tr (head_request u t)"; cases "tr (range_request u t)")
     (auto simp: pdf_exists_def probe_spec_def head_request_def range_request_def
        step1_accepts_def step2_accepts_def type_accepted_def declares_nothing_def
        names_pdf_def or_empty_def lower_def Let_def split: option.splits)

theorem pdf_exists_follows_fallback_witness:
  "pdf_exists (\<lambda>q. if rq_method q = ''HEAD'' then Raises else Response 206 (Some ''Application/PDF''))
       ''u'' 12
     = (True, [head_request ''u'' 12, range_request ''u'' 12])
   \<and> pdf_exists (\<lambda>q. Response 200 (Some ''text/html'')) ''u'' 12 = (False, [head_request ''u'' 12])"
proof -
  have "probe_spec (\<lambda>q. if rq_method q = ''HEAD'' then Raises else Response 206 (Some ''Application/PDF''))
          ''u'' 12
      = (Exists, [head_request ''u'' 12, range_request ''u'' 12])"
    by code_simp
  moreover have "probe_spec (\<lambda>q. Response 200 (Some ''text/html'')) ''u'' 12
      = (NotFound, [head_request ''u'' 12])"
    by code_simp
  ultimately show ?thesis
    by (simp add: pdf_exists_follows_fallback)
qed

subsection \<open>The loop\<close>

lemma advance_cases [consumes 1, case_names skip absent found]:
  assumes "advance e key v = Inr v'"
  obtains
    "\<not> should_attempt_today key (now_local e)" "v' = v"
  | c pat reqs where "should_attempt_today key (now_local e)"
      "py_int (dict_get (state v) key (JInt 0)) = Inr c" "BASE_URLS key = Some pat"
      "pdf_exists (urlopen e) (format_n pat (c + 1)) 12 = (False, reqs)"
      "v' = v\<lparr>probes := probes v @ [\<lparr>pr_url = format_n pat (c + 1), pr_requests = reqs, pr_exists = False\<rparr>]\<rparr>"
  | c pat reqs results label where "should_attempt_today key (now_local e)"
      "py_int (dict_get (state v) key (JInt 0)) = Inr c" "BASE_URLS key = Some pat"
      "pdf_exists (urlopen e) (format_n pat (c + 1)) 12 = (True, reqs)"
      "la_results (latest v) = Some results" "LABELS key = Some label"
      "v' = v\<lparr>state := (state v)(key \<mapsto> JInt (c + 1)),
             latest := (latest v)\<lparr>la_results := Some (results(key \<mapsto> new_snapshot e key label (c + 1) (format_n pat (c + 1))))\<rparr>,
             history := (if (JStr key, c + 1) \<in> existing v then history v
                else (history v)\<lparr>hi_items := Some (load_json (hi_items (history v)) [] @ [new_item e key label (c + 1) (format_n pat (c + 1))])\<rparr>),
             existing := insert (JStr key, c + 1) (existing v),
             updated_any := True,
             probes := probes v @ [\<lparr>pr_url = format_n pat (c + 1), pr_requests = reqs, pr_exists = True\<rparr>]\<rparr>"
  using assms
  by (auto simp: advance_def Let_def new_snapshot_def new_item_def insert_absorb
      split: if_splits sum.splits option.splits prod.splits)

lemma for_keys_append:
  "for_keys e (xs @ ys) v = Inr v' \<longleftrightarrow> (\<exists>v1. for_keys e xs v = Inr v1 \<and> for_keys e ys v1 = Inr v')"
  by (induction xs arbitrary: v) (auto split: sum.splits)

lemma for_keys_invariant:
  assumes "for_keys e ks v = Inr v'" and "P v"
    and "\<And>k u u'. k \<in> set ks \<Longrightarrow> P u \<Longrightarrow> advance e k u = Inr u' \<Longrightarrow> P u'"
  shows "P v'"
  using assms
proof (induction ks arbitrary: v)
  case Nil
  then show ?case by simp
next
  case (Cons k ks)
  from Cons.prems(1) obtain v1 where a: "advance e k v = Inr v1" and f: "for_keys e ks v1 = Inr v'"
    by (auto split: sum.splits)
  have "P v1" using Cons.prems(2) a by (rule Cons.prems(3) [of k, simplified])
  then show ?case using Cons.prems(3) by (intro Cons.IH [OF f]) auto
qed

lemma for_keys_split:
  assumes "key \<in> set ks" and "distinct ks" and "for_keys e ks v = Inr v'"
  obtains ks1 ks2 v1 v2 where "ks = ks1 @ key # ks2" "key \<notin> set ks1" "key \<notin> set ks2"
    "for_keys e ks1 v = Inr v1" "advance e key v1 = Inr v2" "for_keys e ks2 v2 = Inr v'"
proof -
  from assms(1) obtain ks1 ks2 where ks: "ks = ks1 @ key # ks2"
    by (auto simp: in_set_conv_decomp)
  with assms(2) have n: "key \<notin> set ks1" "key \<notin> set ks2" by auto
  from assms(3) ks obtain v1 where 1: "for_keys e ks1 v = Inr v1" and "for_keys e (key # ks2) v1 = Inr v'"
    by (auto simp: for_keys_append)
  then obtain v2 where "advance e key v1 = Inr v2" "for_keys e ks2 v2 = Inr v'"
    by (auto split: sum.splits)
  with ks n 1 show ?thesis using that by blast
qed

text \<open>What one pass of the loop body leaves alone.\<close>

lemma advance_frame:
  assumes "advance e k v = Inr v'" and "k \<noteq> key"
  shows "state v' key = state v key"
    and "la_results (latest v) = Some r \<Longrightarrow> \<exists>r'. la_results (latest v') = Some r' \<and> r' key = r key"
    and "la_updated_at (latest v') = la_updated_at (latest v)"
    and "hi_updated_at (history v') = hi_updated_at (history v)"
  using assms by (cases rule: advance_cases; auto)+

lemma url_differ:
  assumes "BASE_URLS k1 = Some p1" and "BASE_URLS k2 = Some p2" and "k1 \<noteq> k2"
  shows "format_n p1 n \<noteq> format_n p2 m"
  using assms by (auto simp: BASE_URLS_def format_n_def split: if_splits)

lemma for_keys_frame:
  assumes "for_keys e ks v = Inr v'" and "key \<notin> set ks"
  shows "state v' key = state v key"
    and "la_results (latest v) = Some r \<Longrightarrow> \<exists>r'. la_results (latest v') = Some r' \<and> r' key = r key"
proof -
  show "state v' key = state v key"
  proof (rule for_keys_invariant [OF assms(1), where P = "\<lambda>u. state u key = state v key"])
    fix k u u' assume "k \<in> set ks" "state u key = state v key" "advance e k u = Inr u'"
    moreover from this assms(2) have "k \<noteq> key" by auto
    ultimately show "state u' key = state v key" using advance_frame(1) [of e k u u' key] by simp
  qed simp
  show "\<exists>r'. la_results (latest v') = Some r' \<and> r' key = r key" if r: "la_results (latest v) = Some r"
  proof (rule for_keys_invariant [OF assms(1),
          where P = "\<lambda>u. \<exists>r'. la_results (latest u) = Some r' \<and> r' key = r key"])
    fix k u u' assume k: "k \<in> set ks" and "\<exists>r'. la_results (latest u) = Some r' \<and> r' key = r key"
      and a: "advance e k u = Inr u'"
    then obtain r1 where r1: "la_results (latest u) = Some r1" "r1 key = r key" by blast
    from k assms(2) have "k \<noteq> key" by auto
    from advance_frame(2) [OF a this r1(1)] r1(2)
    show "\<exists>r'. la_results (latest u') = Some r' \<and> r' key = r key" by auto
  qed (use r in simp)
qed

lemma for_keys_stamps:
  assumes "for_keys e ks v = Inr v'"
  shows "la_updated_at (latest v') = la_updated_at (latest v)"
    and "hi_updated_at (history v') = hi_updated_at (history v)"
proof -
  have *: "la_updated_at (latest u') = la_updated_at (latest u) \<and> hi_updated_at (history u') = hi_updated_at (history u)"
    if "advance e k u = Inr u'" for k u u'
    using that by (cases rule: advance_cases) auto
  show "la_updated_at (latest v') = la_updated_at (latest v)"
    by (rule for_keys_invariant [OF assms, where P = "\<lambda>u. la_updated_at (latest u) = la_updated_at (latest v)"])
       (use * in auto)
  show "hi_updated_at (history v') = hi_updated_at (history v)"
    by (rule for_keys_invariant [OF assms, where P = "\<lambda>u. hi_updated_at (history u) = hi_updated_at (history v)"])
       (use * in auto)
qed

lemma for_keys_probes_others:
  assumes "for_keys e ks v = Inr v'" and "key \<notin> set ks"
  shows "\<exists>ps. probes v' = probes v @ ps \<and>
    (\<forall>p \<in> set ps. \<forall>pat n. BASE_URLS key = Some pat \<longrightarrow> pr_url p \<noteq> format_n pat n)"
proof (rule for_keys_invariant [OF assms(1)])
  show "\<exists>ps. probes v = probes v @ ps \<and>
    (\<forall>p \<in> set ps. \<forall>pat n. BASE_URLS key = Some pat \<longrightarrow> pr_url p \<noteq> format_n pat n)"
    by simp
next
  fix k u u'
  assume k: "k \<in> set ks" and a: "advance e k u = Inr u'"
    and "\<exists>ps. probes u = probes v @ ps \<and>
      (\<forall>p \<in> set ps. \<forall>pat n. BASE_URLS key = Some pat \<longrightarrow> pr_url p \<noteq> format_n pat n)"
  then obtain ps where ps: "probes u = probes v @ ps"
    "\<forall>p \<in> set ps. \<forall>pat n. BASE_URLS key = Some pat \<longrightarrow> pr_url p \<noteq> format_n pat n" by blast
  from k assms(2) have ne: "k \<noteq> key" by auto
  from a show "\<exists>ps. probes u' = probes v @ ps \<and>
      (\<forall>p \<in> set ps. \<forall>pat n. BASE_URLS key = Some pat \<longrightarrow> pr_url p \<noteq> format_n pat n)"
  proof (cases rule: advance_cases)
    case skip
    with ps show ?thesis by auto
  next
    case (absent c pat reqs)
    then have "probes u' = probes v @ (ps @ [\<lparr>pr_url = format_n pat (c + 1), pr_requests = reqs, pr_exists = False\<rparr>])"
      using ps by simp
    moreover have "\<forall>p \<in> set (ps @ [\<lparr>pr_url = format_n pat (c + 1), pr_requests = reqs, pr_exists = False\<rparr>]).
        \<forall>pat n. BASE_URLS key = Some pat \<longrightarrow> pr_url p \<noteq> format_n pat n"
      using ps(2) url_differ [OF absent(3) _ ne] by auto
    ultimately show ?thesis by blast
  next
    case (found c pat reqs results label)
    then have "probes u' = probes v @ (ps @ [\<lparr>pr_url = format_n pat (c + 1), pr_requests = reqs, pr_exists = True\<rparr>])"
      using ps by simp
    moreover have "\<forall>p \<in> set (ps @ [\<lparr>pr_url = format_n pat (c + 1), pr_requests = reqs, pr_exists = True\<rparr>]).
        \<forall>pat n. BASE_URLS key = Some pat \<longrightarrow> pr_url p \<noteq> format_n pat n"
      using ps(2) url_differ [OF found(3) _ ne] by auto
    ultimately show ?thesis by blast
  qed
qed

lemma for_keys_updated_mono:
  assumes "for_keys e ks v = Inr v'" and "updated_any v"
  shows "updated_any v'"
proof (rule for_keys_invariant [OF assms(1), where P = updated_any])
  show "updated_any v" by fact
next
  fix k u u' assume "advance e k u = Inr u'" "updated_any u"
  then show "updated_any u'" by (cases rule: advance_cases) auto
qed

text \<open>The pass for \<open>key\<close> inside a loop over distinct keys that starts with no probe made.\<close>

lemma for_keys_key:
  assumes "key \<in> set ks" and "distinct ks" and "for_keys e ks v = Inr v'" and "probes v = []"
    and "la_results (latest v) = Some r"
  shows "(\<exists>c pat label r'. should_attempt_today key (now_local e)
            \<and> py_int (dict_get (state v) key (JInt 0)) = Inr c \<and> BASE_URLS key = Some pat
            \<and> LABELS key = Some label
            \<and> reported_exists (probes v') (format_n pat (c + 1))
            \<and> state v' key = Some (JInt (c + 1)) \<and> updated_any v'
            \<and> la_results (latest v') = Some r'
            \<and> r' key = Some (new_snapshot e key label (c + 1) (format_n pat (c + 1))))
       \<or> (state v' key = state v key
            \<and> (\<exists>r'. la_results (latest v') = Some r' \<and> r' key = r key)
            \<and> (\<forall>pat n. BASE_URLS key = Some pat \<longrightarrow> \<not> reported_exists (probes v') (format_n pat n)))"
proof -
  from assms(1-3) obtain ks1 ks2 v1 v2 where ks: "ks = ks1 @ key # ks2"
    and n1: "key \<notin> set ks1" and n2: "key \<notin> set ks2"
    and f1: "for_keys e ks1 v = Inr v1" and a: "advance e key v1 = Inr v2"
    and f2: "for_keys e ks2 v2 = Inr v'"
    by (rule for_keys_split)
  from for_keys_frame [OF f1 n1] assms(5) obtain r1 where
    s1: "state v1 key = state v key" and r1: "la_results (latest v1) = Some r1" "r1 key = r key"
    by blast
  from for_keys_probes_others [OF f1 n1] assms(4) obtain ps1 where
    p1: "probes v1 = ps1"
    "\<forall>p \<in> set ps1. \<forall>pat n. BASE_URLS key = Some pat \<longrightarrow> pr_url p \<noteq> format_n pat n"
    by auto
  from for_keys_probes_others [OF f2 n2] obtain ps2 where
    p2: "probes v' = probes v2 @ ps2"
    "\<forall>p \<in> set ps2. \<forall>pat n. BASE_URLS key = Some pat \<longrightarrow> pr_url p \<noteq> format_n pat n"
    by auto
  have d: "dict_get (state v1) key (JInt 0) = dict_get (state v) key (JInt 0)"
    using s1 by (simp add: dict_get_def)
  from a show ?thesis
  proof (cases rule: advance_cases)
    case skip
    then have "state v' key = state v key"
      using for_keys_frame(1) [OF f2 n2] s1 by simp
    moreover have "\<exists>r'. la_results (latest v') = Some r' \<and> r' key = r key"
      using for_keys_frame(2) [OF f2 n2, of r1] r1 skip by auto
    moreover have "\<forall>pat n. BASE_URLS key = Some pat \<longrightarrow> \<not> reported_exists (probes v') (format_n pat n)"
      using p1 p2 skip by (auto simp: reported_exists_def)
    ultimately show ?thesis by blast
  next
    case (absent c pat reqs)
    then have "state v' key = state v key"
      using for_keys_frame(1) [OF f2 n2] s1 by simp
    moreover have "\<exists>r'. la_results (latest v') = Some r' \<and> r' key = r key"
      using for_keys_frame(2) [OF f2 n2, of r1] r1 absent by auto
    moreover have "\<forall>pat n. BASE_URLS key = Some pat \<longrightarrow> \<not> reported_exists (probes v') (format_n pat n)"
      using p1 p2 absent by (auto simp: reported_exists_def)
    ultimately show ?thesis by blast
  next
    case (found c pat reqs results label)
    have "state v' key = Some (JInt (c + 1))"
      using for_keys_frame(1) [OF f2 n2] found by simp
    moreover have "updated_any v'"
      using for_keys_updated_mono [OF f2] found by simp
    moreover have "reported_exists (probes v') (format_n pat (c + 1))"
      using p2(1) found by (auto simp: reported_exists_def)
    moreover have "\<exists>r'. la_results (latest v') = Some r' \<and>
        r' key = Some (new_snapshot e key label (c + 1) (format_n pat (c + 1)))"
      using for_keys_frame(2) [OF f2 n2,
          of "results(key \<mapsto> new_snapshot e key label (c + 1) (format_n pat (c + 1)))"] found
      by auto
    ultimately show ?thesis using found(1-3,6) d by auto
  qed
qed

subsection \<open>One execution\<close>

text \<open>
  \<open>main\<close> either saves nothing or all three documents; what it saves is read off the
  variables at the end of the loop.
\<close>

lemma distinct_series: "distinct series"
  by (simp add: series_def)

lemma placeholder_series:
  "s \<in> set series \<Longrightarrow> \<exists>l. LABELS s = Some l \<and>
     placeholder s = Inr \<lparr>sn_label = l, sn_draw = [], sn_published_date = [], sn_pdf_url = []\<rparr>"
  by (auto simp: series_def placeholder_def LABELS_def)

lemma normalize_series:
  "\<exists>r'. normalize series r = Inr r' \<and>
     (\<forall>s. r' s = (case r s of Some x \<Rightarrow> Some x
        | None \<Rightarrow> if s \<in> set series then (case placeholder s of Inl _ \<Rightarrow> None | Inr p \<Rightarrow> Some p) else None))"
  by (auto simp: series_def placeholder_def LABELS_def split: option.splits)

lemma main_cases [consumes 1, case_names unsaved all_saved]:
  assumes "main e fs = Inr r"
  obtains results v where "normalize series (results_of fs) = Inr results"
      "for_keys e series (init fs results) = Inr v" "\<not> updated_any v"
      "r = \<lparr>saved = None, probed = probes v\<rparr>"
  | results v items sorted_items where "normalize series (results_of fs) = Inr results"
      "for_keys e series (init fs results) = Inr v" "updated_any v"
      "hi_items (history v) = Some items" "sort_reverse items = Inr sorted_items"
      "r = \<lparr>saved = Some \<lparr>STATE_FILE = Some (state v),
              LATEST_FILE = Some ((latest v)\<lparr>la_updated_at := Some (JStr (stamp_of (now_utc e)))\<rparr>),
              HISTORY_FILE = Some \<lparr>hi_updated_at = Some (JStr (stamp_of (now_utc e))),
                                    hi_items = Some sorted_items\<rparr>\<rparr>,
            probed = probes v\<rparr>"
  using assms
  by (auto simp: main_def Let_def init_def results_of_def items_of_def counters_of_def
      split: sum.splits if_splits option.splits)

lemma run_eq: "main e fs = Inr r \<Longrightarrow> run e fs = (case saved r of None \<Rightarrow> fs | Some fs' \<Rightarrow> fs')"
  by (simp add: run_def)

lemma init_simps [simp]:
  "state (init fs results) = counters_of fs"
  "la_results (latest (init fs results)) = Some results"
  "probes (init fs results) = []"
  "updated_any (init fs results) = False"
  by (simp_all add: init_def)

lemma main_key:
  assumes "main e fs = Inr r" and "key \<in> set series"
  shows "(\<exists>c pat label. should_attempt_today key (now_local e)
            \<and> counter fs key = Inr c \<and> BASE_URLS key = Some pat \<and> LABELS key = Some label
            \<and> reported_exists (probed r) (format_n pat (c + 1))
            \<and> saved r \<noteq> None
            \<and> counters_of (run e fs) key = Some (JInt (c + 1))
            \<and> results_of (run e fs) key = Some (new_snapshot e key label (c + 1) (format_n pat (c + 1))))
       \<or> ((\<forall>pat n. BASE_URLS key = Some pat \<longrightarrow> \<not> reported_exists (probed r) (format_n pat n))
            \<and> (if saved r = None then run e fs = fs
                else counters_of (run e fs) key = counters_of fs key
                  \<and> results_of (run e fs) key = (case results_of fs key of Some x \<Rightarrow> Some x
                       | None \<Rightarrow> (case placeholder key of Inl _ \<Rightarrow> None | Inr p \<Rightarrow> Some p))))"
  using assms(1)
proof (cases rule: main_cases)
  case (unsaved results v)
  have "updated_any v' \<Longrightarrow> False" if "v' = v" for v' using unsaved(3) that by simp
  from for_keys_key [OF assms(2) distinct_series unsaved(2)] unsaved(3)
  have "\<forall>pat n. BASE_URLS key = Some pat \<longrightarrow> \<not> reported_exists (probes v) (format_n pat n)"
    by auto
  then show ?thesis using unsaved(4) run_eq [OF assms(1)] by simp
next
  case (all_saved results v items sorted_items)
  from normalize_series [of "results_of fs"] all_saved(1) assms(2)
  have res: "results key = (case results_of fs key of Some x \<Rightarrow> Some x
       | None \<Rightarrow> (case placeholder key of Inl _ \<Rightarrow> None | Inr p \<Rightarrow> Some p))"
    by auto
  have run: "counters_of (run e fs) = state v" "results_of (run e fs) = load_json (la_results (latest v)) Map.empty"
    "saved r \<noteq> None" "probed r = probes v"
    using run_eq [OF assms(1)] all_saved(6)
    by (simp_all add: counters_of_def results_of_def load_json_def)
  from for_keys_key [OF assms(2) distinct_series all_saved(2) init_simps(3) init_simps(2)]
  show ?thesis
  proof (elim disjE exE conjE)
    fix c pat label r'
    assume "should_attempt_today key (now_local e)"
      "py_int (dict_get (state (init fs results)) key (JInt 0)) = Inr c" "BASE_URLS key = Some pat"
      "LABELS key = Some label" "reported_exists (probes v) (format_n pat (c + 1))"
      "state v key = Some (JInt (c + 1))" "la_results (latest v) = Some r'"
      "r' key = Some (new_snapshot e key label (c + 1) (format_n pat (c + 1)))"
    then show ?thesis using run by (auto simp: counter_def load_json_def)
  next
    fix r'
    assume "state v key = state (init fs results) key" "la_results (latest v) = Some r'"
      "r' key = results key"
      "\<forall>pat n. BASE_URLS key = Some pat \<longrightarrow> \<not> reported_exists (probes v) (format_n pat n)"
    then show ?thesis using run res by (auto simp: load_json_def)
  qed
qed

lemma main_other:
  assumes "main e fs = Inr r" and "key \<notin> set series"
  shows "counters_of (run e fs) key = counters_of fs key"
  using assms(1)
proof (cases rule: main_cases)
  case (unsaved results v)
  then show ?thesis using run_eq [OF assms(1)] by simp
next
  case (all_saved results v items sorted_items)
  then show ?thesis
    using run_eq [OF assms(1)] for_keys_frame(1) [OF all_saved(2) assms(2)]
    by (simp add: counters_of_def load_json_def)
qed

subsection \<open>The counters\<close>

lemma for_keys_probes_verdict:
  assumes "for_keys e ks v = Inr v'"
    and "\<forall>p \<in> set (probes v). pr_exists p = fst (pdf_exists (urlopen e) (pr_url p) 12)"
  shows "\<forall>p \<in> set (probes v'). pr_exists p = fst (pdf_exists (urlopen e) (pr_url p) 12)"
proof (rule for_keys_invariant [OF assms(1),
    where P = "\<lambda>u. \<forall>p \<in> set (probes u). pr_exists p = fst (pdf_exists (urlopen e) (pr_url p) 12)"])
  fix k u u' assume "k \<in> set ks"
    "\<forall>p \<in> set (probes u). pr_exists p = fst (pdf_exists (urlopen e) (pr_url p) 12)"
    "advance e k u = Inr u'"
  from this(3,2) show "\<forall>p \<in> set (probes u'). pr_exists p = fst (pdf_exists (urlopen e) (pr_url p) 12)"
    by (cases rule: advance_cases) auto
qed (rule assms(2))

lemma main_probes_verdict:
  assumes "main e fs = Inr r"
  shows "\<forall>p \<in> set (probed r). pr_exists p = fst (pdf_exists (urlopen e) (pr_url p) 12)"
  using assms
proof (cases rule: main_cases)
  case (unsaved results v)
  with for_keys_probes_verdict [OF unsaved(2)] show ?thesis by simp
next
  case (all_saved results v items sorted_items)
  with for_keys_probes_verdict [OF all_saved(2)] show ?thesis by simp
qed

text \<open>
  Claim C1. In an execution of \<open>main\<close> that returns, the counter of a series changes
  exactly when the prober reported \<open>Exists\<close> for the location made from the counter plus
  one; when it changes, it becomes the counter plus one; and what the log says the prober
  reported for a location is what \<open>pdf_exists\<close> returns for it.
\<close>

theorem counter_advances_iff_confirmed:
  assumes "main e fs = Inr r" and "s \<in> set series"
  shows "(counter (run e fs) s \<noteq> counter fs s) =
           (\<exists>c pat. counter fs s = Inr c \<and> BASE_URLS s = Some pat
              \<and> reported_exists (probed r) (format_n pat (c + 1)))
       \<and> (\<forall>c. counter fs s = Inr c \<and> counter (run e fs) s \<noteq> counter fs s
              \<longrightarrow> counter (run e fs) s = Inr (c + 1))
       \<and> (\<forall>p \<in> set (probed r). pr_exists p = fst (pdf_exists (urlopen e) (pr_url p) 12))"
proof -
  have "(counter (run e fs) s \<noteq> counter fs s) =
           (\<exists>c pat. counter fs s = Inr c \<and> BASE_URLS s = Some pat
              \<and> reported_exists (probed r) (format_n pat (c + 1)))
       \<and> (\<forall>c. counter fs s = Inr c \<and> counter (run e fs) s \<noteq> counter fs s
              \<longrightarrow> counter (run e fs) s = Inr (c + 1))"
    using main_key [OF assms]
  proof (elim disjE exE conjE)
    fix c pat label
    assume "counter fs s = Inr c" "BASE_URLS s = Some pat"
      "reported_exists (probed r) (format_n pat (c + 1))"
      "counters_of (run e fs) s = Some (JInt (c + 1))"
    moreover from this have "counter (run e fs) s = Inr (c + 1)"
      by (simp add: counter_def dict_get_def)
    ultimately show ?thesis by auto
  next
    assume "\<forall>pat n. BASE_URLS s = Some pat \<longrightarrow> \<not> reported_exists (probed r) (format_n pat n)"
      and "if saved r = None then run e fs = fs
           else counters_of (run e fs) s = counters_of fs s
             \<and> results_of (run e fs) s = (case results_of fs s of Some x \<Rightarrow> Some x
                  | None \<Rightarrow> (case placeholder s of Inl _ \<Rightarrow> None | Inr p \<Rightarrow> Some p))"
    moreover from this have "counter (run e fs) s = counter fs s"
      by (auto simp: counter_def dict_get_def split: if_splits)
    ultimately show ?thesis by auto
  qed
  with main_probes_verdict [OF assms(1)] show ?thesis by blast
qed

theorem counter_advances_iff_confirmed_witness:
  "counter (run scenario_A_env scenario_A_files) ''mayor'' \<noteq> counter scenario_A_files ''mayor''
   \<and> counter (run scenario_A_env scenario_A_files) ''mayor'' = Inr 6"
proof -
  have "case main scenario_A_env scenario_A_files of Inl _ \<Rightarrow> False
     | Inr r \<Rightarrow> reported_exists (probed r)
         ''https://lotenal.gob.mx/documentos/listapremios/mayor/mayor6.pdf''"
    by code_simp
  then obtain r where r: "main scenario_A_env scenario_A_files = Inr r"
    "reported_exists (probed r) ''https://lotenal.gob.mx/documentos/listapremios/mayor/mayor6.pdf''"
    by (auto split: sum.splits)
  have s: "''mayor'' \<in> set series"
    by (simp add: series_def)
  have c: "counter scenario_A_files ''mayor'' = Inr 5"
    by code_simp
  have b: "BASE_URLS ''mayor''
      = Some (''https://lotenal.gob.mx/documentos/listapremios/mayor/mayor'', ''.pdf'')"
    by (simp add: BASE_URLS_def)
  have u: "format_n (''https://lotenal.gob.mx/documentos/listapremios/mayor/mayor'', ''.pdf'') (5 + 1)
      = ''https://lotenal.gob.mx/documentos/listapremios/mayor/mayor6.pdf''"
    by code_simp
  from counter_advances_iff_confirmed [OF r(1) s] c b u r(2) show ?thesis
    by auto
qed

lemma run_counter:
  assumes "counter fs s = Inr c"
  shows "counter (run e fs) s = Inr c \<or> counter (run e fs) s = Inr (c + 1)"
proof (cases "main e fs")
  case (Inl err)
  then show ?thesis using assms by (simp add: run_def)
next
  case (Inr r)
  show ?thesis
  proof (cases "s \<in> set series")
    case True
    from main_key [OF Inr True] show ?thesis
      using assms by (auto simp: counter_def dict_get_def split: if_splits)
  next
    case False
    from main_other [OF Inr False] show ?thesis
      using assms by (simp add: counter_def dict_get_def)
  qed
qed

text \<open>
  Claim C2. Over any sequence of executions, each with its own clock and server, a counter
  never goes down, and it goes up by at most one for each execution: after the executions
  \<open>es\<close> it lies between its old value and its old value plus the length of \<open>es\<close>. For
  one execution it is the old value or the old value plus one.
\<close>

theorem counter_monotone:
  assumes "counter fs s = Inr c"
  shows "\<exists>c'. counter (runs es fs) s = Inr c' \<and> c \<le> c' \<and> c' \<le> c + int (length es)"
  using assms
proof (induction es arbitrary: fs c)
  case Nil
  then show ?case by simp
next
  case (Cons e es)
  from run_counter [OF Cons.prems, of e] show ?case
  proof
    assume "counter (run e fs) s = Inr c"
    from Cons.IH [OF this] show ?thesis by auto
  next
    assume "counter (run e fs) s = Inr (c + 1)"
    from Cons.IH [OF this] show ?thesis by auto
  qed
qed

theorem counter_monotone_witness:
  "\<exists>c'. counter (runs [scenario_A_env, scenario_B_env, scenario_A_env] scenario_A_files) ''mayor'' = Inr c'
     \<and> 5 \<le> c' \<and> c' \<le> 8"
proof -
  have "counter scenario_A_files ''mayor'' = Inr 5"
    by code_simp
  from counter_monotone [OF this, of "[scenario_A_env, scenario_B_env, scenario_A_env]"]
  show ?thesis by simp
qed

subsection \<open>Nothing is saved unless a series advanced\<close>

lemma for_keys_updated_iff:
  assumes "for_keys e ks v = Inr v'" and "updated_any v = (\<exists>p \<in> set (probes v). pr_exists p)"
  shows "updated_any v' = (\<exists>p \<in> set (probes v'). pr_exists p)"
proof (rule for_keys_invariant [OF assms(1), where P = "\<lambda>u. updated_any u = (\<exists>p \<in> set (probes u). pr_exists p)"])
  fix k u u' assume "k \<in> set ks" "updated_any u = (\<exists>p \<in> set (probes u). pr_exists p)"
    "advance e k u = Inr u'"
  from this(3,2) show "updated_any u' = (\<exists>p \<in> set (probes u'). pr_exists p)"
    by (cases rule: advance_cases) auto
qed (rule assms(2))

lemma main_saved_iff:
  assumes "main e fs = Inr r"
  shows "(saved r \<noteq> None) = (\<exists>p \<in> set (probed r). pr_exists p)"
  using assms
proof (cases rule: main_cases)
  case (unsaved results v)
  with for_keys_updated_iff [OF unsaved(2)] show ?thesis by simp
next
  case (all_saved results v items sorted_items)
  with for_keys_updated_iff [OF all_saved(2)] show ?thesis by simp
qed

lemma run_never_found:
  assumes "\<forall>u. \<not> fst (pdf_exists (urlopen e) u 12)"
  shows "run e fs = fs"
proof (cases "main e fs")
  case (Inl err)
  then show ?thesis by (simp add: run_def)
next
  case (Inr r)
  from main_probes_verdict [OF Inr] assms have "\<not> (\<exists>p \<in> set (probed r). pr_exists p)" by simp
  with main_saved_iff [OF Inr] have "saved r = None" by simp
  with run_eq [OF Inr] show ?thesis by simp
qed

text \<open>
  Claim C3. When every call of the prober in an execution reported \<open>NotFound\<close>, which
  includes the execution that made no call because no series was eligible, \<open>main\<close> saves
  nothing and the three files are what they were, time stamps included. With a prober that
  never reports \<open>Exists\<close> the files are unchanged after one execution and after a second.
\<close>

theorem no_advance_no_write:
  "(main e fs = Inr r \<and> (\<forall>p \<in> set (probed r). \<not> pr_exists p) \<longrightarrow> saved r = None \<and> run e fs = fs)
   \<and> ((\<forall>u. \<not> fst (pdf_exists (urlopen e1) u 12)) \<and> (\<forall>u. \<not> fst (pdf_exists (urlopen e2) u 12))
        \<longrightarrow> run e1 fs = fs \<and> run e2 (run e1 fs) = fs)"
proof (intro conjI impI)
  assume a: "main e fs = Inr r \<and> (\<forall>p \<in> set (probed r). \<not> pr_exists p)"
  with main_saved_iff [of e fs r] show "saved r = None" by simp
  with a run_eq [of e fs r] show "run e fs = fs" by simp
next
  assume a: "(\<forall>u. \<not> fst (pdf_exists (urlopen e1) u 12)) \<and> (\<forall>u. \<not> fst (pdf_exists (urlopen e2) u 12))"
  then show "run e1 fs = fs" using run_never_found by blast
  with a show "run e2 (run e1 fs) = fs" using run_never_found by simp
qed

theorem no_advance_no_write_witness:
  "\<exists>r. main scenario_B_env scenario_A_files = Inr r \<and> saved r = None
     \<and> run scenario_B_env scenario_A_files = scenario_A_files
     \<and> run scenario_B_env (run scenario_B_env scenario_A_files) = scenario_A_files"
proof -
  have "case main scenario_B_env scenario_A_files of Inl _ \<Rightarrow> False
     | Inr r \<Rightarrow> list_all (\<lambda>p. \<not> pr_exists p) (probed r)"
    by code_simp
  then obtain r where r: "main scenario_B_env scenario_A_files = Inr r"
    "\<forall>p \<in> set (probed r). \<not> pr_exists p"
    by (auto simp: list_all_iff split: sum.splits)
  have n: "\<forall>u. \<not> fst (pdf_exists (urlopen scenario_B_env) u 12)"
    by (simp add: pdf_exists_def scenario_B_env_def serves_nothing_def)
  from no_advance_no_write [of scenario_B_env scenario_A_files r scenario_B_env scenario_B_env] r n
  show ?thesis by auto
qed

subsection \<open>One time stamp for both documents\<close>

lemma replace_at_end:
  "c \<notin> set s \<Longrightarrow> replace (c # xs) new (s @ c # xs) = s @ new"
  by (induction s) auto

lemma digit_char_not_plus: "d < 10 \<Longrightarrow> digit_char d \<noteq> CHR ''+''"
  by (auto simp: digit_char_def char_of_eq_iff take_bit_eq_mod)

lemma str_nat_not_plus: "CHR ''+'' \<notin> set (str_nat n)"
proof (induction n rule: str_nat.induct)
  case (1 n)
  show ?case
  proof (cases "n < 10")
    case True
    then show ?thesis using digit_char_not_plus [of n] by (subst str_nat.simps) auto
  next
    case False
    then show ?thesis
      using 1 digit_char_not_plus [of "n mod 10"] by (subst str_nat.simps) auto
  qed
qed

lemma zfill_not_plus: "CHR ''+'' \<notin> set (zfill w n)"
  using str_nat_not_plus by (auto simp: zfill_def)

lemma stamp_of_eq: "stamp_of t = utc_z t"
proof -
  have "CHR ''+'' \<notin> set (date_isoformat t @ ''T'' @ time_isoformat t)"
    using zfill_not_plus by (auto simp: date_isoformat_def time_isoformat_def)
  from replace_at_end [OF this, of "''00:00''" "''Z''"] show ?thesis
    by (simp add: stamp_of_def isoformat_def utc_z_def)
qed

lemma for_keys_probes_urls:
  assumes "for_keys e ks v = Inr v'"
  shows "\<exists>ps. probes v' = probes v @ ps \<and>
    (\<forall>p \<in> set ps. \<exists>k \<in> set ks. \<exists>pat n. BASE_URLS k = Some pat \<and> pr_url p = format_n pat n)"
proof (rule for_keys_invariant [OF assms])
  show "\<exists>ps. probes v = probes v @ ps \<and>
    (\<forall>p \<in> set ps. \<exists>k \<in> set ks. \<exists>pat n. BASE_URLS k = Some pat \<and> pr_url p = format_n pat n)"
    by simp
next
  fix k u u'
  assume k: "k \<in> set ks" and a: "advance e k u = Inr u'"
    and "\<exists>ps. probes u = probes v @ ps \<and>
    (\<forall>p \<in> set ps. \<exists>k \<in> set ks. \<exists>pat n. BASE_URLS k = Some pat \<and> pr_url p = format_n pat n)"
  then obtain ps where ps: "probes u = probes v @ ps"
    "\<forall>p \<in> set ps. \<exists>k \<in> set ks. \<exists>pat n. BASE_URLS k = Some pat \<and> pr_url p = format_n pat n"
    by blast
  have "\<exists>q. probes u' = probes u @ q \<and>
      (\<forall>p \<in> set q. \<exists>pat n. BASE_URLS k = Some pat \<and> pr_url p = format_n pat n)"
    using a by (cases rule: advance_cases) auto
  then obtain q where q: "probes u' = probes u @ q"
    "\<forall>p \<in> set q. \<exists>pat n. BASE_URLS k = Some pat \<and> pr_url p = format_n pat n" by blast
  have "probes u' = probes v @ (ps @ q)" using ps(1) q(1) by simp
  moreover have "\<forall>p \<in> set (ps @ q). \<exists>k \<in> set ks. \<exists>pat n. BASE_URLS k = Some pat \<and> pr_url p = format_n pat n"
    using ps(2) q(2) k by (metis Un_iff set_append)
  ultimately show "\<exists>ps. probes u' = probes v @ ps \<and>
    (\<forall>p \<in> set ps. \<exists>k \<in> set ks. \<exists>pat n. BASE_URLS k = Some pat \<and> pr_url p = format_n pat n)"
    by blast
qed

lemma main_probes_urls:
  assumes "main e fs = Inr r" and "p \<in> set (probed r)"
  shows "\<exists>k \<in> set series. \<exists>pat n. BASE_URLS k = Some pat \<and> pr_url p = format_n pat n"
  using assms(1)
proof (cases rule: main_cases)
  case (unsaved results v)
  with for_keys_probes_urls [OF unsaved(2)] assms(2) show ?thesis by auto
next
  case (all_saved results v items sorted_items)
  with for_keys_probes_urls [OF all_saved(2)] assms(2) show ?thesis by auto
qed

lemma main_saved_iff_advanced:
  assumes "main e fs = Inr r"
  shows "(saved r \<noteq> None) = (\<exists>s \<in> set series. counter (run e fs) s \<noteq> counter fs s)"
proof
  assume "saved r \<noteq> None"
  with main_saved_iff [OF assms] obtain p where p: "p \<in> set (probed r)" "pr_exists p" by auto
  from main_probes_urls [OF assms p(1)] obtain k pat n where
    k: "k \<in> set series" "BASE_URLS k = Some pat" "pr_url p = format_n pat n" by blast
  with p have "reported_exists (probed r) (format_n pat n)"
    by (auto simp: reported_exists_def)
  with main_key [OF assms k(1)] k(2) have "counter (run e fs) k \<noteq> counter fs k"
    by (auto simp: counter_def dict_get_def)
  with k(1) show "\<exists>s \<in> set series. counter (run e fs) s \<noteq> counter fs s" by blast
next
  assume "\<exists>s \<in> set series. counter (run e fs) s \<noteq> counter fs s"
  then obtain s where s: "s \<in> set series" "counter (run e fs) s \<noteq> counter fs s" by blast
  from main_key [OF assms s(1)] s(2) show "saved r \<noteq> None"
    by (auto simp: counter_def split: if_splits)
qed

text \<open>
  Claim C9. An execution that returns saves exactly when the counter of some series
  advanced. When it saves, \<^verbatim>\<open>updated_at\<close> of the snapshot collection and of the history
  are the same string: the UTC instant of the execution in ISO form with the suffix
  \<^verbatim>\<open>Z\<close>. When it does not save, the files, and so both time stamps, are untouched.
\<close>

theorem one_stamp_when_advanced:
  assumes "main e fs = Inr r"
  shows "(saved r \<noteq> None) = (\<exists>s \<in> set series. counter (run e fs) s \<noteq> counter fs s)
    \<and> (\<forall>fs'. saved r = Some fs' \<longrightarrow>
          (\<exists>la hi. LATEST_FILE fs' = Some la \<and> HISTORY_FILE fs' = Some hi
             \<and> la_updated_at la = Some (JStr (utc_z (now_utc e)))
             \<and> hi_updated_at hi = Some (JStr (utc_z (now_utc e)))))
    \<and> (saved r = None \<longrightarrow> run e fs = fs)"
proof (intro conjI allI impI)
  show "(saved r \<noteq> None) = (\<exists>s \<in> set series. counter (run e fs) s \<noteq> counter fs s)"
    by (rule main_saved_iff_advanced [OF assms])
next
  fix fs' assume "saved r = Some fs'"
  with assms show "\<exists>la hi. LATEST_FILE fs' = Some la \<and> HISTORY_FILE fs' = Some hi
             \<and> la_updated_at la = Some (JStr (utc_z (now_utc e)))
             \<and> hi_updated_at hi = Some (JStr (utc_z (now_utc e)))"
    by (cases rule: main_cases) (auto simp: stamp_of_eq)
next
  assume "saved r = None"
  with run_eq [OF assms] show "run e fs = fs" by simp
qed

theorem one_stamp_when_advanced_witness:
  "\<exists>r fs' la hi. main scenario_A_env scenario_A_files = Inr r \<and> saved r = Some fs'
     \<and> LATEST_FILE fs' = Some la \<and> HISTORY_FILE fs' = Some hi
     \<and> la_updated_at la = Some (JStr ''2024-11-12T20:14:15.000123Z'')
     \<and> hi_updated_at hi = Some (JStr ''2024-11-12T20:14:15.000123Z'')"
proof -
  have "case main scenario_A_env scenario_A_files of Inl _ \<Rightarrow> False | Inr r \<Rightarrow> saved r \<noteq> None"
    by code_simp
  then obtain r fs' where r: "main scenario_A_env scenario_A_files = Inr r" "saved r = Some fs'"
    by (auto split: sum.splits)
  have "utc_z (now_utc scenario_A_env) = ''2024-11-12T20:14:15.000123Z''"
    by code_simp
  with one_stamp_when_advanced [OF r(1)] r show ?thesis by auto
qed

subsection \<open>No history entry twice\<close>

lemma dedupe_set_eq:
  "dedupe_set its ex = ex \<union> {k. \<exists>it \<in> set its. dedupe_key_of it = Some k}"
  by (induction its arbitrary: ex) (auto simp: dedupe_key_of_def split: sum.splits)

lemma dedupe_key_new_item [simp]: "dedupe_key_of (new_item e k label n u) = Some (JStr k, n)"
  by (simp add: dedupe_key_of_def new_item_def get_none_def)

lemma advance_history:
  assumes "advance e k u = Inr u'"
  shows "(items_in u' = items_in u \<and> existing u' = existing u)
    \<or> (\<exists>n label url. should_attempt_today k (now_local e) \<and> (JStr k, n) \<notin> existing u
          \<and> items_in u' = items_in u @ [new_item e k label n url]
          \<and> existing u' = insert (JStr k, n) (existing u))"
  using assms
proof (cases rule: advance_cases)
  case (found c pat reqs results label)
  show ?thesis
  proof (cases "(JStr k, c + 1) \<in> existing u")
    case True
    with found show ?thesis by (simp add: items_in_def insert_absorb)
  next
    case False
    with found have "items_in u' = items_in u @ [new_item e k label (c + 1) (format_n pat (c + 1))]"
      "existing u' = insert (JStr k, c + 1) (existing u)"
      by (simp_all add: items_in_def load_json_def)
    with False found(1) show ?thesis by blast
  qed
qed (simp_all add: items_in_def)

lemma set_map_filter_eq: "set (List.map_filter f xs) = {y. \<exists>x \<in> set xs. f x = Some y}"
  by (induction xs) (auto split: option.splits)

lemma keys_agree_iff:
  "keys_agree v = (existing v = {k. \<exists>it \<in> set (items_in v). dedupe_key_of it = Some k})"
  by (simp add: keys_agree_def set_map_filter_eq)

lemma advance_keys_agree:
  assumes "advance e k u = Inr u'" and "keys_agree u"
  shows "keys_agree u'"
  using advance_history [OF assms(1)] assms(2) by (auto simp: keys_agree_iff)

lemma advance_entries:
  assumes "advance e k u = Inr u'" and "keys_agree u"
  shows "length (entries s n (items_in u')) = length (entries s n (items_in u))
    \<or> (length (entries s n (items_in u)) = 0 \<and> length (entries s n (items_in u')) = 1)"
  using advance_history [OF assms(1)]
proof (elim disjE exE conjE)
  fix m label url
  assume m: "(JStr k, m) \<notin> existing u" "items_in u' = items_in u @ [new_item e k label m url]"
  show ?thesis
  proof (cases "(JStr s, n) = (JStr k, m)")
    case True
    with m(1) assms(2) have "entries s n (items_in u) = []"
      by (auto simp: keys_agree_iff entries_def filter_empty_conv)
    with m(2) True show ?thesis by (auto simp: entries_def)
  next
    case False
    with m(2) show ?thesis by (auto simp: entries_def)
  qed
qed simp

lemma for_keys_entries:
  assumes "for_keys e ks v = Inr v'" and "keys_agree v"
  shows "length (entries s n (items_in v')) = length (entries s n (items_in v))
    \<or> (length (entries s n (items_in v)) = 0 \<and> length (entries s n (items_in v')) = 1)"
proof -
  let ?P = "\<lambda>u. keys_agree u \<and> (length (entries s n (items_in u)) = length (entries s n (items_in v))
    \<or> (length (entries s n (items_in v)) = 0 \<and> length (entries s n (items_in u)) = 1))"
  have "?P v'"
  proof (rule for_keys_invariant [OF assms(1), where P = ?P])
    show "?P v" using assms(2) by simp
  next
    fix k u u' assume "k \<in> set ks" and P: "?P u" and a: "advance e k u = Inr u'"
    from advance_keys_agree [OF a] advance_entries [OF a, of s n] P
    show "?P u'" by auto
  qed
  then show ?thesis by simp
qed

subsection \<open>The order of the history\<close>

lemma with_keys_props:
  assumes "with_keys xs = Inr kxs"
  shows "map snd kxs = xs" and "\<forall>kx \<in> set kxs. sort_key_of (snd kx) = Inr (fst kx)"
  using assms by (induction xs arbitrary: kxs; auto split: sum.splits)+

lemma sort_reverse_props:
  assumes "sort_reverse xs = Inr ys"
  shows "mset ys = mset xs"
    and "\<exists>ks. map sort_key_of ys = map Inr ks \<and> sorted (rev ks)"
proof -
  from assms obtain kxs where kxs: "with_keys xs = Inr kxs"
    and ys: "ys = map snd (rev (sort_key fst (rev kxs)))"
    by (auto simp: sort_reverse_def split: sum.splits)
  let ?L = "sort_key fst (rev kxs)"
  have "mset ys = image_mset snd (mset ?L)" using ys by simp
  also have "\<dots> = image_mset snd (mset kxs)" by simp
  also have "\<dots> = mset (map snd kxs)" by simp
  finally show "mset ys = mset xs" using with_keys_props(1) [OF kxs] by simp
  have "set ?L = set kxs" by simp
  with with_keys_props(2) [OF kxs] have "\<forall>kx \<in> set (rev ?L). sort_key_of (snd kx) = Inr (fst kx)"
    by simp
  then have "map sort_key_of ys = map Inr (map fst (rev ?L))"
    unfolding ys by (simp add: comp_def)
  moreover have "sorted (rev (map fst (rev ?L)))"
    by (simp add: rev_map [symmetric])
  ultimately show "\<exists>ks. map sort_key_of ys = map Inr ks \<and> sorted (rev ks)" by blast
qed

lemma init_history [simp]:
  "items_in (init fs results) = items_of fs"
  "keys_agree (init fs results)"
  by (simp_all add: init_def items_in_def items_of_def keys_agree_iff dedupe_set_eq)

lemma entries_mset: "mset xs = mset ys \<Longrightarrow> length (entries s n xs) = length (entries s n ys)"
  unfolding entries_def by (metis mset_filter size_mset)

lemma run_entries:
  "length (entries s n (items_of (run e fs))) = length (entries s n (items_of fs))
    \<or> (length (entries s n (items_of fs)) = 0 \<and> length (entries s n (items_of (run e fs))) = 1)"
proof (cases "main e fs")
  case (Inl err)
  then show ?thesis by (simp add: run_def)
next
  case (Inr r)
  then show ?thesis
  proof (cases rule: main_cases)
    case (unsaved results v)
    then show ?thesis using run_eq [OF Inr] by simp
  next
    case (all_saved results v items sorted_items)
    have "items_of (run e fs) = sorted_items"
      using run_eq [OF Inr] all_saved(6) by (simp add: items_of_def load_json_def)
    moreover have "items_in v = items"
      using all_saved(4) by (simp add: items_in_def load_json_def)
    ultimately have "length (entries s n (items_of (run e fs))) = length (entries s n (items_in v))"
      using entries_mset [OF sort_reverse_props(1) [OF all_saved(5)]] by simp
    with for_keys_entries [OF all_saved(2), of s n] show ?thesis by simp
  qed
qed

text \<open>
  Claim C4. Whatever executions follow, a series \<open>s\<close> and an index \<open>n\<close> that had at most
  one entry in the history have at most one afterwards; and if they had exactly one, for
  instance because the counter was set back and the index is found again, they still have
  exactly one.
\<close>

theorem history_entries_unique:
  "(length (entries s n (items_of fs)) \<le> 1 \<longrightarrow> length (entries s n (items_of (runs es fs))) \<le> 1)
   \<and> (length (entries s n (items_of fs)) = 1 \<longrightarrow> length (entries s n (items_of (runs es fs))) = 1)"
proof (induction es arbitrary: fs)
  case Nil
  show ?case by simp
next
  case (Cons e es)
  from run_entries [of s n e fs] Cons [of "run e fs"] show ?case by auto
qed

theorem history_entries_unique_witness:
  "length (entries ''zodiaco'' 10 (items_of scenario_D_files)) = 1
   \<and> counter (run scenario_D_env scenario_D_files) ''zodiaco'' = Inr 10
   \<and> length (entries ''zodiaco'' 10 (items_of (runs [scenario_D_env] scenario_D_files))) = 1"
proof -
  have 1: "length (entries ''zodiaco'' 10 (items_of scenario_D_files)) = 1"
    by code_simp
  have 2: "counter (run scenario_D_env scenario_D_files) ''zodiaco'' = Inr 10"
    by code_simp
  from history_entries_unique [of "''zodiaco''" 10 scenario_D_files "[scenario_D_env]"] 1 2
  show ?thesis by simp
qed

text \<open>
  The order of strings in the sort keys is Python's: a string is smaller than another when it
  is a proper prefix of it, or when at the first place where they differ it has the smaller
  code point.
\<close>

lemma string_less_iff:
  "(s :: string) < t \<longleftrightarrow>
     (\<exists>a v. t = s @ a # v)
     \<or> (\<exists>u a b v w. (of_char a :: nat) < of_char b \<and> s = u @ a # v \<and> t = u @ b # w)"
  by (auto simp: list_less_def lexord_def less_char_def)

lemma sorted_rev_pairs:
  fixes ks :: "(string \<times> int) list"
  shows "sorted (rev ks) = sorted_wrt (\<lambda>a b. fst b < fst a \<or> (fst b = fst a \<and> snd b \<le> snd a)) ks"
proof -
  have "(\<lambda>a b :: string \<times> int. b \<le> a) = (\<lambda>a b. fst b < fst a \<or> (fst b = fst a \<and> snd b \<le> snd a))"
    by (auto simp: fun_eq_iff less_eq_prod_def)
  then show ?thesis by (simp add: sorted_wrt_rev)
qed

text \<open>
  Claim C5. The items that an execution saves are in descending order of the pair of
  \<^verbatim>\<open>published_date\<close> and \<^verbatim>\<open>draw\<close>: of two items, the earlier one in the list has the
  later date, or the same date and a \<^verbatim>\<open>draw\<close> that is not smaller.
\<close>

theorem history_sorted_descending:
  assumes "main e fs = Inr r" and "saved r = Some fs'"
  shows "\<exists>ks. map sort_key_of (items_of fs') = map Inr ks
     \<and> sorted_wrt (\<lambda>a b. fst b < fst a \<or> (fst b = fst a \<and> snd b \<le> snd a)) ks"
  using assms(1)
proof (cases rule: main_cases)
  case (unsaved results v)
  with assms(2) show ?thesis by simp
next
  case (all_saved results v items sorted_items)
  with assms(2) have "items_of fs' = sorted_items"
    by (auto simp: items_of_def load_json_def)
  with sort_reverse_props(2) [OF all_saved(5)] show ?thesis
    by (simp add: sorted_rev_pairs)
qed

theorem history_sorted_descending_witness:
  "\<exists>ks. map sort_key_of (items_of (run scenario_A_env scenario_E_files)) = map Inr ks
     \<and> sorted_wrt (\<lambda>a b. fst b < fst a \<or> (fst b = fst a \<and> snd b \<le> snd a)) ks
     \<and> map it_draw (items_of (run scenario_A_env scenario_E_files))
         = [Some (JInt 6), Some (JInt 5), Some (JInt 4)]"
proof -
  have "case main scenario_A_env scenario_E_files of Inl _ \<Rightarrow> False | Inr r \<Rightarrow> saved r \<noteq> None"
    by code_simp
  then obtain r fs' where r: "main scenario_A_env scenario_E_files = Inr r" "saved r = Some fs'"
    by (auto split: sum.splits)
  then have f: "run scenario_A_env scenario_E_files = fs'"
    by (simp add: run_def)
  have "map it_draw (items_of (run scenario_A_env scenario_E_files))
         = [Some (JInt 6), Some (JInt 5), Some (JInt 4)]"
    by code_simp
  with history_sorted_descending [OF r] f show ?thesis by auto
qed

subsection \<open>Snapshot and counter\<close>

lemma run_agrees_at:
  assumes "agrees_at fs s" and "s \<in> set series"
  shows "agrees_at (run e fs) s"
proof (cases "main e fs")
  case (Inl err)
  then show ?thesis using assms by (simp add: run_def)
next
  case (Inr r)
  from main_key [OF Inr assms(2)] show ?thesis
  proof (elim disjE exE conjE)
    fix c pat label
    assume "counters_of (run e fs) s = Some (JInt (c + 1))"
      "results_of (run e fs) s = Some (new_snapshot e s label (c + 1) (format_n pat (c + 1)))"
    then show ?thesis
      by (simp add: agrees_at_def counter_def dict_get_def new_snapshot_def)
  next
    assume "if saved r = None then run e fs = fs
         else counters_of (run e fs) s = counters_of fs s
           \<and> results_of (run e fs) s = (case results_of fs s of Some x \<Rightarrow> Some x
                | None \<Rightarrow> (case placeholder s of Inl _ \<Rightarrow> None | Inr p \<Rightarrow> Some p))"
    then show ?thesis using assms(1)
      by (auto simp: agrees_at_def counter_def dict_get_def split: if_splits sum.splits option.splits)
  qed
qed

lemma run_agrees: "agrees fs \<Longrightarrow> agrees (run e fs)"
  by (simp add: agrees_def run_agrees_at)

lemma agrees_no_files: "agrees no_files"
  by (simp add: agrees_def agrees_at_def no_files_def counter_def counters_of_def load_json_def
      default_state_def dict_get_def series_def)

text \<open>
  Claim C6. Snapshot and counter agree for every series when there are no files yet, and
  from files in which they agree every sequence of executions leads to files in which they
  agree: where the counter is positive, the \<^verbatim>\<open>draw\<close> of the snapshot is the formatted
  counter. An execution in which the counter of a series advances writes both, so that they
  agree for that series afterwards whatever the files were before.
\<close>

theorem snapshot_agrees_with_counter:
  "agrees no_files \<and> (agrees fs \<longrightarrow> agrees (runs es fs))
   \<and> (main e fs = Inr r \<and> s \<in> set series \<and> counter (run e fs) s \<noteq> counter fs s
        \<longrightarrow> agrees_at (run e fs) s)"
proof (intro conjI impI)
  show "agrees no_files" by (rule agrees_no_files)
  show "agrees (runs es fs)" if "agrees fs"
    using that by (induction es arbitrary: fs) (simp_all add: run_agrees)
  assume a: "main e fs = Inr r \<and> s \<in> set series \<and> counter (run e fs) s \<noteq> counter fs s"
  then have m: "main e fs = Inr r" and s: "s \<in> set series" by simp_all
  from main_key [OF m s] show "agrees_at (run e fs) s"
  proof (elim disjE exE conjE)
    fix c pat label
    assume "counters_of (run e fs) s = Some (JInt (c + 1))"
      "results_of (run e fs) s = Some (new_snapshot e s label (c + 1) (format_n pat (c + 1)))"
    then show ?thesis
      by (simp add: agrees_at_def counter_def dict_get_def new_snapshot_def)
  next
    assume "if saved r = None then run e fs = fs
         else counters_of (run e fs) s = counters_of fs s
           \<and> results_of (run e fs) s = (case results_of fs s of Some x \<Rightarrow> Some x
                | None \<Rightarrow> (case placeholder s of Inl _ \<Rightarrow> None | Inr p \<Rightarrow> Some p))"
    with a show ?thesis
      by (auto simp: counter_def dict_get_def split: if_splits)
  qed
qed

theorem snapshot_agrees_with_counter_witness:
  "agrees no_files \<and> agrees (runs [scenario_A_env, scenario_A_env] no_files)
   \<and> counter (runs [scenario_A_env, scenario_A_env] no_files) ''mayor'' = Inr 2
   \<and> map_option sn_draw (results_of (runs [scenario_A_env, scenario_A_env] no_files) ''mayor'')
        = Some ''Sorteo 2''
   \<and> \<not> agrees_at scenario_A_files ''mayor''
   \<and> agrees_at (run scenario_A_env scenario_A_files) ''mayor''"
proof -
  have 1: "counter (runs [scenario_A_env, scenario_A_env] no_files) ''mayor'' = Inr 2
    \<and> map_option sn_draw (results_of (runs [scenario_A_env, scenario_A_env] no_files) ''mayor'')
        = Some ''Sorteo 2''"
    by code_simp
  have "case main scenario_A_env scenario_A_files of Inl _ \<Rightarrow> False
     | Inr r \<Rightarrow> counter (run scenario_A_env scenario_A_files) ''mayor'' \<noteq> counter scenario_A_files ''mayor''"
    by code_simp
  then obtain r where r: "main scenario_A_env scenario_A_files = Inr r"
    "counter (run scenario_A_env scenario_A_files) ''mayor'' \<noteq> counter scenario_A_files ''mayor''"
    by (auto split: sum.splits)
  have 2: "''mayor'' \<in> set series"
    by (simp add: series_def)
  have 3: "\<not> agrees_at scenario_A_files ''mayor''"
    by code_simp
  from snapshot_agrees_with_counter [of no_files "[scenario_A_env, scenario_A_env]"]
    snapshot_agrees_with_counter [of scenario_A_files "[]" scenario_A_env r "''mayor''"] 1 2 3 r
  show ?thesis by simp
qed

subsection \<open>The schedule gate\<close>

lemma should_attempt_unknown: "SCHEDULE_WEEKDAYS s = None \<Longrightarrow> \<not> should_attempt_today s t"
  by (simp add: should_attempt_today_def dict_get_def)

lemma pdf_exists_requests:
  "\<forall>q \<in> set (snd (pdf_exists tr u t)). rq_url q = u"
  by (auto simp: pdf_exists_def Let_def split: outcome.splits)

lemma for_keys_ineligible:
  assumes "for_keys e ks v = Inr v'" and "\<not> should_attempt_today s (now_local e)"
  shows "\<exists>ps. probes v' = probes v @ ps \<and>
      (\<forall>p \<in> set ps. \<forall>pat n. BASE_URLS s = Some pat \<longrightarrow>
         pr_url p \<noteq> format_n pat n \<and> (\<forall>q \<in> set (pr_requests p). rq_url q \<noteq> format_n pat n))"
    and "of_series s (items_in v') = of_series s (items_in v)"
proof -
  let ?Q = "\<lambda>p. \<forall>pat n. BASE_URLS s = Some pat \<longrightarrow>
         pr_url p \<noteq> format_n pat n \<and> (\<forall>q \<in> set (pr_requests p). rq_url q \<noteq> format_n pat n)"
  show "\<exists>ps. probes v' = probes v @ ps \<and> (\<forall>p \<in> set ps. ?Q p)"
  proof (rule for_keys_invariant [OF assms(1)])
    show "\<exists>ps. probes v = probes v @ ps \<and> (\<forall>p \<in> set ps. ?Q p)" by simp
  next
    fix k u u'
    assume a: "advance e k u = Inr u'" and "\<exists>ps. probes u = probes v @ ps \<and> (\<forall>p \<in> set ps. ?Q p)"
    then obtain ps where ps: "probes u = probes v @ ps" "\<forall>p \<in> set ps. ?Q p" by blast
    have "\<exists>q. probes u' = probes u @ q \<and> (\<forall>p \<in> set q. ?Q p)"
      using a
    proof (cases rule: advance_cases)
      case skip
      then show ?thesis by simp
    next
      case (absent c pat reqs)
      with assms(2) have ne: "k \<noteq> s" by auto
      have "?Q \<lparr>pr_url = format_n pat (c + 1), pr_requests = reqs, pr_exists = False\<rparr>"
        using url_differ [OF absent(3) _ ne] pdf_exists_requests [of "urlopen e" "format_n pat (c + 1)" 12]
          absent(4) by auto
      with absent(5) show ?thesis by simp
    next
      case (found c pat reqs results label)
      with assms(2) have ne: "k \<noteq> s" by auto
      have "?Q \<lparr>pr_url = format_n pat (c + 1), pr_requests = reqs, pr_exists = True\<rparr>"
        using url_differ [OF found(3) _ ne] pdf_exists_requests [of "urlopen e" "format_n pat (c + 1)" 12]
          found(4) by auto
      with found(7) show ?thesis by simp
    qed
    then obtain q where q: "probes u' = probes u @ q" "\<forall>p \<in> set q. ?Q p" by blast
    have "probes u' = probes v @ (ps @ q)" using ps(1) q(1) by simp
    moreover have "\<forall>p \<in> set (ps @ q). ?Q p" using ps(2) q(2) by (metis Un_iff set_append)
    ultimately show "\<exists>ps. probes u' = probes v @ ps \<and> (\<forall>p \<in> set ps. ?Q p)" by blast
  qed
  show "of_series s (items_in v') = of_series s (items_in v)"
  proof (rule for_keys_invariant [OF assms(1), where P = "\<lambda>u. of_series s (items_in u) = of_series s (items_in v)"])
    fix k u u'
    assume a: "advance e k u = Inr u'" and u: "of_series s (items_in u) = of_series s (items_in v)"
    from advance_history [OF a] assms(2) have "of_series s (items_in u') = of_series s (items_in u)"
      by (auto simp: of_series_def new_item_def)
    with u show "of_series s (items_in u') = of_series s (items_in v)" by simp
  qed simp
qed

lemma snapshot_of_eq:
  "snapshot_of fs s = (case results_of fs s of Some x \<Rightarrow> Some x
     | None \<Rightarrow> if s \<in> set series then (case placeholder s of Inl _ \<Rightarrow> None | Inr p \<Rightarrow> Some p) else None)"
  using normalize_series [of "results_of fs"] by (auto simp: snapshot_of_def)

text \<open>
  Claim C8. \<open>should_attempt_today\<close> is false for a series that the schedule table does not
  list. When it is false for a series of the script in an execution that returns, no call
  of the prober and no request goes to a location of that series, whatever the server would
  have answered, and nothing of the series changes: its counter, its snapshot as the script
  reads it, and its history items are what they were.
\<close>

theorem gate_closed:
  "(SCHEDULE_WEEKDAYS s = None \<longrightarrow> \<not> should_attempt_today s t)
   \<and> (main e fs = Inr r \<and> s \<in> set series \<and> \<not> should_attempt_today s (now_local e) \<longrightarrow>
        (\<forall>p \<in> set (probed r). \<forall>pat n. BASE_URLS s = Some pat \<longrightarrow>
           pr_url p \<noteq> format_n pat n \<and> (\<forall>q \<in> set (pr_requests p). rq_url q \<noteq> format_n pat n))
        \<and> counters_of (run e fs) s = counters_of fs s
        \<and> snapshot_of (run e fs) s = snapshot_of fs s
        \<and> mset (of_series s (items_of (run e fs))) = mset (of_series s (items_of fs)))"
proof (intro conjI impI)
  assume "SCHEDULE_WEEKDAYS s = None"
  then show "\<not> should_attempt_today s t" by (rule should_attempt_unknown)
next
  assume a: "main e fs = Inr r \<and> s \<in> set series \<and> \<not> should_attempt_today s (now_local e)"
  then have m: "main e fs = Inr r" and s: "s \<in> set series"
    and n: "\<not> should_attempt_today s (now_local e)" by simp_all
  from main_key [OF m s] n have
    k: "if saved r = None then run e fs = fs
         else counters_of (run e fs) s = counters_of fs s
           \<and> results_of (run e fs) s = (case results_of fs s of Some x \<Rightarrow> Some x
                | None \<Rightarrow> (case placeholder s of Inl _ \<Rightarrow> None | Inr p \<Rightarrow> Some p))"
    by auto
  show "counters_of (run e fs) s = counters_of fs s"
    using k by (auto split: if_splits)
  show "snapshot_of (run e fs) s = snapshot_of fs s"
    using k s by (auto simp: snapshot_of_eq split: if_splits option.splits sum.splits)
  from m have "(\<forall>p \<in> set (probed r). \<forall>pat n. BASE_URLS s = Some pat \<longrightarrow>
           pr_url p \<noteq> format_n pat n \<and> (\<forall>q \<in> set (pr_requests p). rq_url q \<noteq> format_n pat n))
     \<and> mset (of_series s (items_of (run e fs))) = mset (of_series s (items_of fs))"
  proof (cases rule: main_cases)
    case (unsaved results v)
    with for_keys_ineligible(1) [OF unsaved(2) n] run_eq [OF m] show ?thesis by auto
  next
    case (all_saved results v items sorted_items)
    have "items_of (run e fs) = sorted_items"
      using run_eq [OF m] all_saved(6) by (simp add: items_of_def load_json_def)
    moreover have "items_in v = items"
      using all_saved(4) by (simp add: items_in_def load_json_def)
    ultimately have "mset (of_series s (items_of (run e fs))) = mset (of_series s (items_in v))"
      using sort_reverse_props(1) [OF all_saved(5)] by (simp add: of_series_def)
    with for_keys_ineligible [OF all_saved(2) n] all_saved(6) show ?thesis by auto
  qed
  then show "\<forall>p \<in> set (probed r). \<forall>pat n. BASE_URLS s = Some pat \<longrightarrow>
           pr_url p \<noteq> format_n pat n \<and> (\<forall>q \<in> set (pr_requests p). rq_url q \<noteq> format_n pat n)"
    and "mset (of_series s (items_of (run e fs))) = mset (of_series s (items_of fs))"
    by simp_all
qed

theorem gate_closed_witness:
  "\<not> should_attempt_today ''melate'' a_tuesday
   \<and> \<not> should_attempt_today ''superior'' (now_local scenario_A_env)
   \<and> (\<exists>r. main scenario_A_env scenario_E_files = Inr r
        \<and> list_all (\<lambda>p. pr_url p \<noteq> format_n (''https://lotenal.gob.mx/documentos/listapremios/superior/superior'', ''.pdf'') 1) (probed r))
   \<and> counters_of (run scenario_A_env scenario_E_files) ''superior'' = counters_of scenario_E_files ''superior''
   \<and> snapshot_of (run scenario_A_env scenario_E_files) ''superior'' = snapshot_of scenario_E_files ''superior''
   \<and> mset (of_series ''superior'' (items_of (run scenario_A_env scenario_E_files)))
        = mset (of_series ''superior'' (items_of scenario_E_files))"
proof -
  have 1: "SCHEDULE_WEEKDAYS ''melate'' = None"
    by (simp add: SCHEDULE_WEEKDAYS_def)
  have "case main scenario_A_env scenario_E_files of Inl _ \<Rightarrow> False | Inr r \<Rightarrow> True"
    by code_simp
  then obtain r where r: "main scenario_A_env scenario_E_files = Inr r"
    by (auto split: sum.splits)
  have 2: "''superior'' \<in> set series"
    by (simp add: series_def)
  have 3: "\<not> should_attempt_today ''superior'' (now_local scenario_A_env)"
    by (simp add: should_attempt_today_def scenario_A_env_def a_tuesday_def SCHEDULE_WEEKDAYS_def
        dict_get_def)
  have 4: "BASE_URLS ''superior''
      = Some (''https://lotenal.gob.mx/documentos/listapremios/superior/superior'', ''.pdf'')"
    by (simp add: BASE_URLS_def)
  from gate_closed [of "''melate''" a_tuesday scenario_A_env scenario_E_files r] 1
  have a: "\<not> should_attempt_today ''melate'' a_tuesday" by simp
  from gate_closed [of "''superior''" a_tuesday scenario_A_env scenario_E_files r] r 2 3 4
  show ?thesis using a by (auto simp: list_all_iff)
qed

subsection \<open>History items that are not well formed\<close>

lemma dedupe_set_append: "dedupe_set (xs @ ys) ex = dedupe_set ys (dedupe_set xs ex)"
  by (induction xs arbitrary: ex) (auto split: sum.splits)

text \<open>
  Claim C10 says that an item without \<^verbatim>\<open>type\<close> puts no pair into the set of line 104.
  It does when its \<^verbatim>\<open>draw\<close> is an integer: then \<^verbatim>\<open>it.get("type")\<close> is \<^verbatim>\<open>None\<close>,
  nothing raises, and the pair of \<^verbatim>\<open>None\<close> and the integer is added.
\<close>

theorem untyped_item_counterexample:
  "it_type \<lparr>it_type = None, it_label = None, it_draw = Some (JInt 5), it_published_date = None,
             it_pdf_url = None\<rparr> = None
   \<and> dedupe_set [\<lparr>it_type = None, it_label = None, it_draw = Some (JInt 5), it_published_date = None,
                   it_pdf_url = None\<rparr>] {} = {(JNull, 5)}"
  by (simp add: get_none_def)

text \<open>
  Claim C10, amended. An item whose \<^verbatim>\<open>draw\<close> cannot be converted to an integer puts
  nothing into the set of line 104: the set is the one built without the item. An item
  without \<^verbatim>\<open>type\<close> may put a pair into it, but never the pair of a series name and an
  index: for such pairs, being in the set is the same with and without the item. Building
  the set raises nothing. So in neither case does the item make the test of line 140 fail
  for an entry that the loop is about to append.
\<close>

theorem malformed_item_never_blocks:
  "(py_int (get_none (it_draw it)) = Inl err \<longrightarrow>
        dedupe_set (xs @ it # ys) ex = dedupe_set (xs @ ys) ex)
   \<and> (it_type it = None \<longrightarrow>
        ((JStr s, n) \<in> dedupe_set (xs @ it # ys) ex) = ((JStr s, n) \<in> dedupe_set (xs @ ys) ex))"
  by (auto simp: dedupe_set_eq dedupe_key_of_def get_none_def split: sum.splits)

theorem malformed_item_never_blocks_witness:
  "dedupe_set [undrawn_item] {} = {}
   \<and> dedupe_set [untyped_item] {} = {(JNull, 6)}
   \<and> (JStr ''mayor'', 6) \<notin> dedupe_set [untyped_item] {}
   \<and> length (entries ''mayor'' 6 (items_of scenario_F_files)) = 0
   \<and> length (entries ''mayor'' 6 (items_of (run scenario_A_env scenario_F_files))) = 1"
proof -
  have 1: "py_int (get_none (it_draw undrawn_item)) = Inl ValueError"
    by code_simp
  have 2: "it_type untyped_item = None"
    by (simp add: untyped_item_def)
  have 3: "dedupe_set [untyped_item] {} = {(JNull, 6)}"
    by (simp add: untyped_item_def get_none_def)
  have 4: "length (entries ''mayor'' 6 (items_of scenario_F_files)) = 0
   \<and> length (entries ''mayor'' 6 (items_of (run scenario_A_env scenario_F_files))) = 1"
    by code_simp
  from malformed_item_never_blocks [of undrawn_item ValueError "[]" "[]" "{}" "''mayor''" 6] 1
    malformed_item_never_blocks [of untyped_item ValueError "[]" "[]" "{}" "''mayor''" 6] 2 3 4
  show ?thesis by simp
qed

subsection \<open>When \<open>main\<close> returns\<close>

text \<open>
  \<open>main\<close> raises nothing when the counters of the three series can be converted by
  \<^verbatim>\<open>int\<close> and so can the \<^verbatim>\<open>draw\<close> of every history item that has one. Files that the
  script wrote itself are of this kind, and so is the absence of files.
\<close>

lemma tables_series:
  "k \<in> set series \<Longrightarrow> \<exists>pat label. BASE_URLS k = Some pat \<and> LABELS k = Some label"
  by (auto simp: series_def BASE_URLS_def LABELS_def)

lemma advance_returns:
  assumes "k \<in> set series" and "py_int (dict_get (state v) k (JInt 0)) = Inr c"
    and "la_results (latest v) = Some rs"
  shows "\<exists>v'. advance e k v = Inr v'"
proof -
  from tables_series [OF assms(1)] obtain pat label where "BASE_URLS k = Some pat" "LABELS k = Some label"
    by blast
  with assms(2,3) show ?thesis
    by (auto simp: advance_def Let_def split: prod.splits)
qed

lemma advance_keeps_results:
  assumes "advance e k v = Inr v'" and "la_results (latest v) = Some rs"
  shows "\<exists>rs'. la_results (latest v') = Some rs'"
  using assms by (cases rule: advance_cases) auto

lemma for_keys_returns:
  assumes "distinct ks" and "set ks \<subseteq> set series"
    and "\<forall>k \<in> set ks. \<exists>c. py_int (dict_get (state v) k (JInt 0)) = Inr c"
    and "la_results (latest v) = Some rs"
  shows "\<exists>v'. for_keys e ks v = Inr v'"
  using assms
proof (induction ks arbitrary: v rs)
  case Nil
  then show ?case by simp
next
  case (Cons k ks)
  from Cons.prems obtain c where "py_int (dict_get (state v) k (JInt 0)) = Inr c" by auto
  with advance_returns [of k v c rs e] Cons.prems obtain v1 where a: "advance e k v = Inr v1"
    by auto
  from advance_keeps_results [OF a Cons.prems(4)] obtain rs1 where rs1: "la_results (latest v1) = Some rs1"
    by blast
  have "\<forall>k' \<in> set ks. \<exists>c. py_int (dict_get (state v1) k' (JInt 0)) = Inr c"
  proof
    fix k' assume k': "k' \<in> set ks"
    with Cons.prems(1) have "k \<noteq> k'" by auto
    from advance_frame(1) [OF a this] have "dict_get (state v1) k' (JInt 0) = dict_get (state v) k' (JInt 0)"
      by (simp add: dict_get_def)
    with Cons.prems(3) k' show "\<exists>c. py_int (dict_get (state v1) k' (JInt 0)) = Inr c" by simp
  qed
  with Cons.IH [of v1 rs1] Cons.prems(1,2) rs1 obtain v' where "for_keys e ks v1 = Inr v'"
    by auto
  with a show ?case by simp
qed

lemma with_keys_returns: "sortable xs \<Longrightarrow> \<exists>kxs. with_keys xs = Inr kxs"
  by (induction xs) (auto simp: sortable_def split: sum.splits)

lemma sort_reverse_returns: "sortable xs \<Longrightarrow> \<exists>ys. sort_reverse xs = Inr ys"
  using with_keys_returns [of xs] by (auto simp: sort_reverse_def)

lemma sortable_new_item: "sortable (xs @ [new_item e k label n u]) = sortable xs"
  by (auto simp: sortable_def sort_key_of_def new_item_def)

lemma for_keys_sortable:
  assumes "for_keys e ks v = Inr v'" and "keys_agree v" and "sortable (items_in v)"
    and "updated_any v \<longrightarrow> hi_items (history v) \<noteq> None"
  shows "sortable (items_in v')" and "updated_any v' \<longrightarrow> hi_items (history v') \<noteq> None"
proof -
  let ?P = "\<lambda>u. keys_agree u \<and> sortable (items_in u) \<and> (updated_any u \<longrightarrow> hi_items (history u) \<noteq> None)"
  have "?P v'"
  proof (rule for_keys_invariant [OF assms(1), where P = ?P])
    show "?P v" using assms by simp
  next
    fix k u u' assume P: "?P u" and a: "advance e k u = Inr u'"
    have 1: "keys_agree u'" using advance_keys_agree [OF a] P by simp
    have 2: "sortable (items_in u')"
      using advance_history [OF a] P by (auto simp: sortable_new_item)
    have 3: "updated_any u' \<longrightarrow> hi_items (history u') \<noteq> None"
      using a
    proof (cases rule: advance_cases)
      case (found c pat reqs results label)
      show ?thesis
      proof (cases "(JStr k, c + 1) \<in> existing u")
        case True
        with P have "items_in u \<noteq> []" by (auto simp: keys_agree_iff)
        then have "hi_items (history u) \<noteq> None"
          by (auto simp: items_in_def load_json_def split: option.splits)
        with found True show ?thesis by simp
      next
        case False
        with found show ?thesis by simp
      qed
    qed (use P in auto)
    from 1 2 3 show "?P u'" by simp
  qed
  then show "sortable (items_in v')" and "updated_any v' \<longrightarrow> hi_items (history v') \<noteq> None"
    by simp_all
qed

lemma main_returns:
  assumes "\<forall>s \<in> set series. \<exists>c. counter fs s = Inr c" and "sortable (items_of fs)"
  shows "\<exists>r. main e fs = Inr r"
proof -
  from normalize_series [of "results_of fs"] obtain results where
    n: "normalize series (results_of fs) = Inr results" by blast
  from for_keys_returns [OF distinct_series subset_refl, of "init fs results" results e] assms(1)
  obtain v where f: "for_keys e series (init fs results) = Inr v"
    by (auto simp: counter_def)
  from for_keys_sortable [OF f] assms(2)
  have s: "sortable (items_in v)" and h: "updated_any v \<longrightarrow> hi_items (history v) \<noteq> None"
    by simp_all
  show ?thesis
  proof (cases "updated_any v")
    case False
    with n f show ?thesis
      by (simp add: main_def Let_def init_def results_of_def items_of_def counters_of_def)
  next
    case True
    with h obtain items where i: "hi_items (history v) = Some items" by auto
    with s have "sortable items" by (simp add: items_in_def load_json_def)
    from sort_reverse_returns [OF this] obtain ys where "sort_reverse items = Inr ys" by blast
    with n f True i show ?thesis
      by (simp add: main_def Let_def init_def results_of_def items_of_def counters_of_def)
  qed
qed

text \<open>
  An item whose \<^verbatim>\<open>draw\<close> is there but cannot be converted is passed over by lines 106 to
  109, yet the sort key of line 161 applies \<^verbatim>\<open>int\<close> to it with no handler: once a series
  advances, \<open>main\<close> raises before it saves.
\<close>

lemma unconvertible_draw_stops_saving:
  "(case main scenario_A_env (scenario_A_files\<lparr>HISTORY_FILE :=
        Some \<lparr>hi_updated_at = None, hi_items = Some [undrawn_item]\<rparr>\<rparr>) of
      Inl err \<Rightarrow> err = ValueError | Inr r \<Rightarrow> False)"
  by code_simp

end
